theory Spec2Isabelle
  imports Complex_Main "HOL-Library.Multiset"
begin

section \<open>Eyelid-openness calibration pipeline\<close>

text \<open>
  A shallow embedding of \<^verbatim>\<open>services/opennessComputationService.ts\<close>,
  \<^verbatim>\<open>services/models/smoothBlinkModel.ts\<close>,
  \<^verbatim>\<open>services/models/binaryOpennessModel.ts\<close> and
  \<^verbatim>\<open>services/models/registry.ts\<close>.

  A JavaScript \<^verbatim>\<open>number\<close> that carries a sample is modelled as a \<^typ>\<open>real\<close>:
  the arithmetic is exact and there is no NaN among the samples. The output of a trained
  model is a number that may be NaN (the type \<open>Prediction\<close> below). Array indices are
  \<^typ>\<open>int\<close> where the source subtracts from them and \<^typ>\<open>nat\<close> where it only counts
  up. The value \<^verbatim>\<open>undefined\<close> of an out-of-range read is \<^term>\<open>None\<close>.
\<close>

subsection \<open>JavaScript array primitives\<close>

text \<open>\<^verbatim>\<open>xs.slice(s, e)\<close>: a negative bound counts from the end, both are clamped.\<close>

definition js_slice :: "'a list \<Rightarrow> int \<Rightarrow> int \<Rightarrow> 'a list" where
  "js_slice xs s e =
     (let n = int (length xs);
          k = (if s < 0 then max (n + s) 0 else min s n);
          f = (if e < 0 then max (n + e) 0 else min e n)
      in take (nat (f - k)) (drop (nat k) xs))"

text \<open>\<^verbatim>\<open>xs[i]\<close>: \<^verbatim>\<open>undefined\<close> outside the array.\<close>

definition js_nth :: "'a list \<Rightarrow> int \<Rightarrow> 'a option" where
  "js_nth xs i = (if 0 \<le> i \<and> i < int (length xs) then Some (xs ! nat i) else None)"

text \<open>The same read on an array whose elements may themselves be \<^verbatim>\<open>undefined\<close>.\<close>

definition js_nth_opt :: "'a option list \<Rightarrow> int \<Rightarrow> 'a option" where
  "js_nth_opt xs i = (case js_nth xs i of None \<Rightarrow> None | Some v \<Rightarrow> v)"

text \<open>
  \<^verbatim>\<open>Math.min(...xs)\<close> and \<^verbatim>\<open>Math.max(...xs)\<close>. With no argument they are
  \<^verbatim>\<open>Infinity\<close> and \<^verbatim>\<open>-Infinity\<close>, here \<^term>\<open>None\<close>: a value that no sample equals.
\<close>

fun math_min :: "real list \<Rightarrow> real option" where
  "math_min [] = None"
| "math_min (x # xs) = (case math_min xs of None \<Rightarrow> Some x | Some m \<Rightarrow> Some (min x m))"

fun math_max :: "real list \<Rightarrow> real option" where
  "math_max [] = None"
| "math_max (x # xs) = (case math_max xs of None \<Rightarrow> Some x | Some m \<Rightarrow> Some (max x m))"

text \<open>
  \<^verbatim>\<open>smooth[i] === v\<close> where the left side may be \<^verbatim>\<open>undefined\<close> and the right side
  may be infinite: true only for two equal finite numbers.
\<close>

fun strict_eq :: "real option \<Rightarrow> real option \<Rightarrow> bool" where
  "strict_eq (Some a) (Some b) = (a = b)"
| "strict_eq _ _ = False"

text \<open>\<^verbatim>\<open>a < b\<close> on array reads: a comparison with \<^verbatim>\<open>undefined\<close> is false.\<close>

fun js_lt :: "int option \<Rightarrow> int option \<Rightarrow> bool" where
  "js_lt (Some a) (Some b) = (a < b)"
| "js_lt _ _ = False"

subsection \<open>smoothSeries: median, then forward and backward EMA\<close>

text \<open>
  The callback of \<^verbatim>\<open>pred.map((_, i) => ...)\<close> that computes \<^verbatim>\<open>med[i]\<close>;
  \<^verbatim>\<open>medWin >> 1\<close> is \<open>medWin div 2\<close>.
\<close>

definition medianAt :: "real list \<Rightarrow> nat \<Rightarrow> nat \<Rightarrow> real" where
  "medianAt pred medWin i =
     (let s = max 0 (int i - int (medWin div 2));
          e = min (int (length pred)) (int i + int (medWin div 2) + 1);
          w = sort (js_slice pred s e);
          m = length w div 2
      in if length w mod 2 \<noteq> 0 then w ! m else (w ! (m - 1) + w ! m) / 2)"

text \<open>
  \<^verbatim>\<open>for (let i = 1; i < med.length; i++) { acc = alpha*med[i] + (1-alpha)*acc; fwd[i] = acc; }\<close>
\<close>

function emaForward :: "real \<Rightarrow> real list \<Rightarrow> nat \<Rightarrow> real \<Rightarrow> real list \<Rightarrow> real list" where
  "emaForward alpha med i acc fwd =
     (if i < length med
      then (let acc' = alpha * med ! i + (1 - alpha) * acc
            in emaForward alpha med (i + 1) acc' (fwd[i := acc']))
      else fwd)"
  by pat_completeness auto
termination
  by (relation "measure (\<lambda>(alpha, med, i, acc, fwd). length med - i)") auto

declare emaForward.simps [simp del]

text \<open>
  \<^verbatim>\<open>for (let i = med.length - 2; i >= 0; i--) { acc = alpha*med[i] + (1-alpha)*acc; bwd[i] = acc; }\<close>
\<close>

function emaBackward :: "real \<Rightarrow> real list \<Rightarrow> int \<Rightarrow> real \<Rightarrow> real list \<Rightarrow> real list" where
  "emaBackward alpha med i acc bwd =
     (if 0 \<le> i
      then (let acc' = alpha * med ! nat i + (1 - alpha) * acc
            in emaBackward alpha med (i - 1) acc' (bwd[nat i := acc']))
      else bwd)"
  by pat_completeness auto
termination
  by (relation "measure (\<lambda>(alpha, med, i, acc, bwd). nat (i + 1))") auto

declare emaBackward.simps [simp del]

text \<open>
  \<^verbatim>\<open>new Array(n)\<close> is modelled as \<open>n\<close> slots holding 0; the two loops assign every
  slot before the blend reads it (lemmas \<open>emaForward_any_init\<close> and
  \<open>emaBackward_any_init\<close> below: the result does not depend on the initial slots).
\<close>

definition smoothSeries :: "real list \<Rightarrow> nat \<Rightarrow> real \<Rightarrow> real list" where
  "smoothSeries pred medWin alpha =
     (if length pred = 0 then []
      else
        let med = map (medianAt pred medWin) [0..<length pred];
            n = length med;
            fwd = emaForward alpha med 1 (med ! 0) ((replicate n 0)[0 := med ! 0]);
            bwd = emaBackward alpha med (int n - 2) (med ! (n - 1))
                    ((replicate n 0)[n - 1 := med ! (n - 1)]);
            out = map (\<lambda>(i, v). (v + bwd ! i) / 2) (enumerate 0 fwd)
        in map (\<lambda>y. max 0 (min 1 y)) out)"

subsection \<open>labelBlinkExtrema: hysteresis scan and pairing\<close>

datatype State = CLOSED | OPEN

text \<open>The mutable locals of \<^verbatim>\<open>labelBlinkExtrema\<close>.\<close>

record scan =
  state :: State
  segStart :: int
  peaksAcc :: "int option list"
  valleysAcc :: "int option list"
  overRun :: nat
  underRun :: nat

definition minRun :: nat where
  "minRun = 3"

text \<open>
  \<^verbatim>\<open>plateau[(plateau.length / 2) | 0]\<close> is pushed as it is read: \<^term>\<open>None\<close> when the
  plateau is empty.
\<close>

definition finishSegment :: "real list \<Rightarrow> int \<Rightarrow> State \<Rightarrow> scan \<Rightarrow> scan" where
  "finishSegment smooth endIdx prev st =
     (if segStart st > endIdx then st
      else
        let idxs = map (\<lambda>k. segStart st + int k) [0..<nat (endIdx - segStart st + 1)];
            slice = js_slice smooth (segStart st) (endIdx + 1)
        in case prev of
             CLOSED \<Rightarrow>
               (let minVal = math_min slice;
                    plateau = filter (\<lambda>i. strict_eq (js_nth smooth i) minVal) idxs
                in st\<lparr>valleysAcc := valleysAcc st @ [js_nth plateau (int (length plateau div 2))]\<rparr>)
           | OPEN \<Rightarrow>
               (let maxVal = math_max slice;
                    plateau = filter (\<lambda>i. strict_eq (js_nth smooth i) maxVal) idxs
                in st\<lparr>peaksAcc := peaksAcc st @ [js_nth plateau (int (length plateau div 2))]\<rparr>))"

text \<open>The body of \<^verbatim>\<open>for (let i = 0; i < smooth.length; i++)\<close>.\<close>

definition scanStep :: "real list \<Rightarrow> real \<Rightarrow> real \<Rightarrow> nat \<Rightarrow> scan \<Rightarrow> scan" where
  "scanStep smooth openTh closeTh i st =
     (let y = smooth ! i in
      if state st = CLOSED then
        (let st1 = (if y \<ge> openTh then st\<lparr>overRun := overRun st + 1, underRun := 0\<rparr>
                    else st\<lparr>overRun := 0\<rparr>)
         in if overRun st1 \<ge> minRun
            then (finishSegment smooth (int i - int minRun) CLOSED st1)
                   \<lparr>state := OPEN, segStart := int i - int minRun + 1, overRun := 0\<rparr>
            else st1)
      else
        (let st1 = (if y \<le> closeTh then st\<lparr>underRun := underRun st + 1, overRun := 0\<rparr>
                    else st\<lparr>underRun := 0\<rparr>)
         in if underRun st1 \<ge> minRun
            then (finishSegment smooth (int i - int minRun) OPEN st1)
                   \<lparr>state := CLOSED, segStart := int i - int minRun + 1, underRun := 0\<rparr>
            else st1))"

definition scanInit :: "real list \<Rightarrow> real \<Rightarrow> real \<Rightarrow> scan" where
  "scanInit smooth openTh closeTh =
     (let mid = (openTh + closeTh) / 2
      in \<lparr>state = (if smooth ! 0 \<ge> mid then OPEN else CLOSED), segStart = 0,
          peaksAcc = [], valleysAcc = [], overRun = 0, underRun = 0\<rparr>)"

text \<open>The state after the scan loop has run over the indices below \<open>k\<close>.\<close>

definition scanUpTo :: "real list \<Rightarrow> real \<Rightarrow> real \<Rightarrow> nat \<Rightarrow> scan" where
  "scanUpTo smooth openTh closeTh k =
     fold (scanStep smooth openTh closeTh) [0..<k] (scanInit smooth openTh closeTh)"

text \<open>The loop and the closing \<^verbatim>\<open>finishSegment(smooth.length - 1, state)\<close>.\<close>

definition scanAll :: "real list \<Rightarrow> real \<Rightarrow> real \<Rightarrow> scan" where
  "scanAll smooth openTh closeTh =
     (let st = scanUpTo smooth openTh closeTh (length smooth)
      in finishSegment smooth (int (length smooth) - 1) (state st) st)"

text \<open>
  \<^verbatim>\<open>if (peaks.length && valleys.length) {
    if (peaks[0] < valleys[0]) peaks.shift();
    if (valleys[valleys.length - 1] < peaks[peaks.length - 1]) valleys.pop(); }\<close>
\<close>

definition ensurePairing ::
  "int option list \<Rightarrow> int option list \<Rightarrow> int option list \<times> int option list" where
  "ensurePairing peaks valleys =
     (if length peaks \<noteq> 0 \<and> length valleys \<noteq> 0 then
        let peaks1 = (if js_lt (js_nth_opt peaks 0) (js_nth_opt valleys 0) then tl peaks else peaks);
            valleys1 =
              (if js_lt (js_nth_opt valleys (int (length valleys) - 1))
                        (js_nth_opt peaks1 (int (length peaks1) - 1))
               then butlast valleys else valleys)
        in (peaks1, valleys1)
      else (peaks, valleys))"

subsection \<open>Calibration buffers\<close>

type_synonym Vec3 = "real \<times> real \<times> real"

text \<open>\<^verbatim>\<open>SampleMatrix = [number[], number[], number[]]\<close>: three parallel columns.\<close>

type_synonym SampleMatrix = "real list \<times> real list \<times> real list"

text \<open>The three fields of a latent record that the buffers read.\<close>

record Latents =
  unsupervised1 :: real
  unsupervised2 :: real
  unsupervised3 :: real

record CalibrationBuffer =
  combined :: "SampleMatrix option"
  left :: "SampleMatrix option"
  right :: "SampleMatrix option"
  lastCombinedTS :: "int option"
  lastLeftTS :: "int option"
  lastRightTS :: "int option"
  ongoing :: bool

definition makeBuffer :: CalibrationBuffer where
  "makeBuffer =
     \<lparr>combined = None, left = None, right = None,
      lastCombinedTS = None, lastLeftTS = None, lastRightTS = None, ongoing = False\<rparr>"

definition ensureMatrices :: "CalibrationBuffer \<Rightarrow> CalibrationBuffer" where
  "ensureMatrices b =
     (let b1 = (if combined b = None then b\<lparr>combined := Some ([], [], [])\<rparr> else b);
          b2 = (if left b1 = None then b1\<lparr>left := Some ([], [], [])\<rparr> else b1)
      in if right b2 = None then b2\<lparr>right := Some ([], [], [])\<rparr> else b2)"

text \<open>The three \<^verbatim>\<open>push\<close> calls on the columns of one matrix.\<close>

definition pushLatents :: "'a Latents_scheme \<Rightarrow> SampleMatrix \<Rightarrow> SampleMatrix" where
  "pushLatents l m =
     (case m of (c0, c1, c2) \<Rightarrow>
        (c0 @ [unsupervised1 l], c1 @ [unsupervised2 l], c2 @ [unsupervised3 l]))"

text \<open>
  \<^verbatim>\<open>buffer.combined!\<close> is never \<^verbatim>\<open>null\<close> after \<^verbatim>\<open>ensureMatrices\<close>
  (lemma \<open>ensureMatrices_Some\<close>), so the push is written with \<^const>\<open>map_option\<close>.
\<close>

definition appendSamples ::
  "CalibrationBuffer \<Rightarrow> int option \<Rightarrow> int option \<Rightarrow> int option \<Rightarrow>
   'a Latents_scheme \<Rightarrow> 'a Latents_scheme \<Rightarrow> 'a Latents_scheme \<Rightarrow> CalibrationBuffer" where
  "appendSamples buffer combinedTS leftTS rightTS latents latentsLeft latentsRight =
     (let b0 = ensureMatrices buffer;
          b1 = (if combinedTS \<noteq> None \<and> combinedTS \<noteq> lastCombinedTS b0
                then b0\<lparr>combined := map_option (pushLatents latents) (combined b0),
                        lastCombinedTS := combinedTS\<rparr>
                else b0);
          b2 = (if leftTS \<noteq> None \<and> leftTS \<noteq> lastLeftTS b1
                then b1\<lparr>left := map_option (pushLatents latentsLeft) (left b1),
                        lastLeftTS := leftTS\<rparr>
                else b1)
      in if rightTS \<noteq> None \<and> rightTS \<noteq> lastRightTS b2
         then b2\<lparr>right := map_option (pushLatents latentsRight) (right b2),
                 lastRightTS := rightTS\<rparr>
         else b2)"

definition resetBuffer :: "CalibrationBuffer \<Rightarrow> CalibrationBuffer" where
  "resetBuffer b =
     b\<lparr>combined := None, left := None, right := None,
       lastCombinedTS := None, lastLeftTS := None, lastRightTS := None\<rparr>"

definition matToFrames :: "SampleMatrix \<Rightarrow> Vec3 list" where
  "matToFrames m =
     (case m of (c0, c1, c2) \<Rightarrow> map (\<lambda>i. (c0 ! i, c1 ! i, c2 ! i)) [0..<length c0])"

text \<open>The number of samples a matrix holds, \<^verbatim>\<open>m[0].length\<close>.\<close>

definition samples :: "SampleMatrix \<Rightarrow> nat" where
  "samples m = length (fst m)"

subsection \<open>Model keys, registry and the two micro models\<close>

datatype Eye = EyeCombined | EyeLeft | EyeRight

datatype ModelKind = Binary | Smooth

text \<open>
  \<^verbatim>\<open>ModelKey = `${ModelKind}:${Eye}:v${number}`\<close>: the three parts of the template
  string, kept apart.
\<close>

datatype ModelKey = ModelKey ModelKind Eye nat

definition withVersion :: "ModelKind \<Rightarrow> Eye \<Rightarrow> nat \<Rightarrow> ModelKey" where
  "withVersion kind eye v = ModelKey kind eye v"

definition VERSION :: nat where
  "VERSION = 1"

definition binKey :: "Eye \<Rightarrow> nat \<Rightarrow> ModelKey" where
  "binKey eye version = withVersion Binary eye version"

definition smoothKey :: "Eye \<Rightarrow> nat \<Rightarrow> ModelKey" where
  "smoothKey eye version = withVersion Smooth eye version"

text \<open>
  What a model puts out is a JavaScript number that may be \<^verbatim>\<open>NaN\<close>: nothing in the
  code keeps a network from producing it, and \<^verbatim>\<open>mapOpenness\<close> tests for it.
\<close>

datatype Prediction = NaN | Num real

text \<open>
  A trained \<^verbatim>\<open>tf.LayersModel\<close> is opaque: it is the function that
  \<^verbatim>\<open>model.predict(tf.tensor2d([v], [1, 3])).dataSync()[0]\<close> computes.
\<close>

type_synonym LayersModel = "Vec3 \<Rightarrow> Prediction"

text \<open>
  One call of \<^verbatim>\<open>model.fit\<close>, with what the model was compiled and fitted on: the
  rows and labels of the binary set; the rows, ordering signs, peak set and valley set of
  the smooth one.
\<close>

datatype FitCall =
  BinaryFit ModelKey "Vec3 list" "real list"
| SmoothFit ModelKey "Vec3 list" "int option list" "nat list" "nat list"

text \<open>
  The state outside the pipeline: the map of the \<^verbatim>\<open>Registry\<close> class, the artifacts
  saved under \<^verbatim>\<open>indexeddb://key\<close>, the calls of \<^verbatim>\<open>model.fit\<close> so far, and the
  plot data and thresholds dispatched to the store (\<^term>\<open>None\<close>: nothing dispatched yet).
\<close>

record World =
  models :: "ModelKey \<rightharpoonup> LayersModel"
  saved :: "ModelKey \<rightharpoonup> LayersModel"
  fits :: "FitCall list"
  plots :: "Eye \<rightharpoonup> real list \<times> real list"
  blinkOpenThreshold :: "real option"
  blinkCloseThreshold :: "real option"

text \<open>\<^verbatim>\<open>Registry.get\<close> and \<^verbatim>\<open>Registry.set\<close>.\<close>

definition registryGet :: "World \<Rightarrow> ModelKey \<Rightarrow> LayersModel option" where
  "registryGet w key = models w key"

definition registrySet :: "ModelKey \<Rightarrow> LayersModel \<Rightarrow> bool \<Rightarrow> World \<Rightarrow> World" where
  "registrySet key model persist w =
     (let w1 = w\<lparr>models := (models w)(key \<mapsto> model)\<rparr>
      in if persist then w1\<lparr>saved := (saved w1)(key \<mapsto> model)\<rparr> else w1)"

record TrainOpts =
  epochs :: "nat option"
  learningRate :: "real option"
  version :: "nat option"

definition noOpts :: TrainOpts where
  "noOpts = \<lparr>epochs = None, learningRate = None, version = None\<rparr>"

text \<open>\<^verbatim>\<open>matrixToTensor\<close>: one row per index of the first column.\<close>

definition matrixToTensor :: "SampleMatrix \<Rightarrow> Vec3 list" where
  "matrixToTensor m =
     (case m of (c0, c1, c2) \<Rightarrow> map (\<lambda>i. (c0 ! i, c1 ! i, c2 ! i)) [0..<length c0])"

text \<open>
  \<^verbatim>\<open>down\<close> inside the binary \<^verbatim>\<open>train\<close>. The argument \<open>shuffled\<close> is the array that
  \<^verbatim>\<open>tf.util.createShuffledIndices(m[0].length)\<close> returned: a random permutation of the
  indices of \<open>m\<close>.
\<close>

definition down :: "nat \<Rightarrow> nat list \<Rightarrow> SampleMatrix \<Rightarrow> SampleMatrix" where
  "down k shuffled m =
     (case m of (c0, c1, c2) \<Rightarrow>
        let idx = take k shuffled
        in (map (\<lambda>i. c0 ! i) idx, map (\<lambda>i. c1 ! i) idx, map (\<lambda>i. c2 ! i) idx))"

text \<open>
  The binary \<^verbatim>\<open>train\<close>. \<open>trainer\<close> stands for what \<^verbatim>\<open>buildModel\<close>,
  \<^verbatim>\<open>compile\<close> and \<^verbatim>\<open>fit\<close> produce from a training set.
\<close>

definition trainBinary ::
  "(FitCall \<Rightarrow> LayersModel) \<Rightarrow> nat list \<Rightarrow> nat list \<Rightarrow> Eye \<Rightarrow> SampleMatrix \<Rightarrow>
   SampleMatrix \<Rightarrow> TrainOpts \<Rightarrow> World \<Rightarrow> World" where
  "trainBinary trainer shuffledC shuffledO eye closedM openM opts w =
     (let ver = (case version opts of None \<Rightarrow> VERSION | Some v \<Rightarrow> v);
          key = binKey eye ver;
          k = min (length (fst closedM)) (length (fst openM));
          cDown = down k shuffledC closedM;
          oDown = down k shuffledO openM;
          xC = matrixToTensor cDown;
          xO = matrixToTensor oDown;
          yC = replicate k 0;
          yO = replicate k 1;
          xs = xC @ xO;
          ys = yC @ yO;
          call = BinaryFit key xs ys;
          model = trainer call
      in registrySet key model True (w\<lparr>fits := fits w @ [call]\<rparr>))"

definition clamp01 :: "real \<Rightarrow> real" where
  "clamp01 val = min (max val 0) 1"

text \<open>
  \<^verbatim>\<open>Math.min(Math.max(val, 0), 1)\<close>: both functions return \<^verbatim>\<open>NaN\<close> when an argument
  is \<^verbatim>\<open>NaN\<close>.
\<close>

definition clampPrediction :: "Prediction \<Rightarrow> Prediction" where
  "clampPrediction val = (case val of NaN \<Rightarrow> NaN | Num x \<Rightarrow> Num (clamp01 x))"

definition predictBinary :: "World \<Rightarrow> Eye \<Rightarrow> Vec3 \<Rightarrow> Prediction" where
  "predictBinary w eye v =
     (case registryGet w (binKey eye VERSION) of
        None \<Rightarrow> Num (1 / 2)
      | Some model \<Rightarrow> clampPrediction (model v))"

text \<open>
  The smooth \<^verbatim>\<open>predict\<close> returns \<^verbatim>\<open>NaN\<close> to signal that no model is there; it returns
  \<^verbatim>\<open>NaN\<close> as well when the model that is there puts it out.
\<close>

definition predictSmooth :: "World \<Rightarrow> Eye \<Rightarrow> Vec3 \<Rightarrow> Prediction" where
  "predictSmooth w eye v =
     (case registryGet w (smoothKey eye VERSION) of
        None \<Rightarrow> NaN
      | Some model \<Rightarrow> clampPrediction (model v))"

text \<open>\<^verbatim>\<open>if (!Number.isNaN(s)) return s; return predictBinary(eye, v);\<close>\<close>

definition mapOpenness :: "World \<Rightarrow> Vec3 \<Rightarrow> Eye \<Rightarrow> Prediction" where
  "mapOpenness w v eye =
     (case predictSmooth w eye v of
        Num s \<Rightarrow> Num s
      | NaN \<Rightarrow> predictBinary w eye v)"

subsection \<open>The smooth-blink trainer\<close>

text \<open>
  \<^verbatim>\<open>orderingSign[i] = sgn\<close> on a JavaScript array: a write past the end extends the
  array and leaves holes (\<^term>\<open>None\<close>) in between.
\<close>

definition js_set :: "'a option list \<Rightarrow> nat \<Rightarrow> 'a \<Rightarrow> 'a option list" where
  "js_set xs i v =
     (if i < length xs then xs[i := Some v]
      else xs @ replicate (i - length xs) None @ [Some v])"

text \<open>\<^verbatim>\<open>for (let i = s; i < e; i++) orderingSign[i] = sgn;\<close>\<close>

definition fillSign :: "int \<Rightarrow> nat \<Rightarrow> nat \<Rightarrow> int option list \<Rightarrow> int option list" where
  "fillSign sg s e orderingSign = fold (\<lambda>i arr. js_set arr i sg) [s..<e] orderingSign"

text \<open>
  \<^verbatim>\<open>for (let k = 0; k < extrema.length - 1; k++) {
    const s = extrema[k], e = extrema[k + 1], sgn = rising ? 1 : -1;
    for (let i = s; i < e; i++) orderingSign[i] = sgn;
    rising = !rising; }\<close>
\<close>

function signLoop :: "nat list \<Rightarrow> nat \<Rightarrow> bool \<Rightarrow> int option list \<Rightarrow> int option list" where
  "signLoop extrema k rising orderingSign =
     (if int k < int (length extrema) - 1
      then (let s = extrema ! k; e = extrema ! (k + 1); sg = (if rising then 1 else - 1)
            in signLoop extrema (k + 1) (\<not> rising) (fillSign sg s e orderingSign))
      else orderingSign)"
  by pat_completeness auto
termination
  by (relation "measure (\<lambda>(extrema, k, rising, orderingSign). length extrema - k)") auto

declare signLoop.simps [simp del]

text \<open>
  The ordering signs that the smooth \<^verbatim>\<open>train\<close> builds for \<open>N\<close> samples;
  \<^verbatim>\<open>Array(N - 1).fill(0)\<close> needs \<open>N \<ge> 1\<close>, which holds for a non-empty buffer.
\<close>

definition orderingSigns :: "nat \<Rightarrow> nat list \<Rightarrow> nat list \<Rightarrow> int option list" where
  "orderingSigns N peaks valleys =
     (let orderingSign = replicate (N - 1) (Some 0);
          extrema = sort (valleys @ peaks)
      in if length extrema \<ge> 2
         then signLoop extrema 0 (extrema ! 0 \<in> set valleys) orderingSign
         else orderingSign)"




text \<open>
  The operations of TensorFlow.js that the loss uses, on exact reals, by what their
  documentation says they compute: \<^verbatim>\<open>tf.gather\<close>, the mean of a tensor,
  \<^verbatim>\<open>tf.losses.meanSquaredError\<close> (the mean of the squared differences) and
  \<^verbatim>\<open>tf.relu\<close>.
\<close>

definition tf_gather :: "real list \<Rightarrow> nat list \<Rightarrow> real list" where
  "tf_gather y idx = map (\<lambda>i. y ! i) idx"

definition tf_mean :: "real list \<Rightarrow> real" where
  "tf_mean xs = sum_list xs / real (length xs)"

definition tf_meanSquaredError :: "real list \<Rightarrow> real list \<Rightarrow> real" where
  "tf_meanSquaredError labels predictions =
     tf_mean (map (\<lambda>(a, b). (a - b) ^ 2) (zip labels predictions))"

definition tf_relu :: "real \<Rightarrow> real" where
  "tf_relu x = max 0 x"

text \<open>
  \<^verbatim>\<open>makeCompositeLoss(orderingSign, peaks, valleys)\<close> applied to the predictions
  \<open>yPred\<close> of the \<open>N\<close> samples; \<open>peaks\<close> and \<open>valleys\<close> are the two sets, as the lists
  of their elements.
\<close>

definition makeCompositeLoss :: "real list \<Rightarrow> nat list \<Rightarrow> nat list \<Rightarrow> real list \<Rightarrow> real" where
  "makeCompositeLoss orderingSign peaks valleys yPred =
     (let y = yPred;
          N = length y;
          anchorIdx = peaks @ valleys;
          yAnchor = tf_gather y anchorIdx;
          target = map (\<lambda>i. if i \<in> set peaks then 1 else 0) anchorIdx;
          anchorLoss = tf_meanSquaredError target yAnchor;
          yNext = drop 1 y;
          yCurr = take (N - 1) y;
          diff = map (\<lambda>(a, b). a - b) (zip yNext yCurr);
          sign = orderingSign;
          orderingLoss = tf_mean (map (\<lambda>(sg, d). tf_relu (- (sg * d))) (zip sign diff))
      in anchorLoss + orderingLoss * (1 / 2))"

subsection \<open>calibrateBinary\<close>

text \<open>The matrix of one eye variant in a buffer.\<close>

definition matrixOf :: "Eye \<Rightarrow> CalibrationBuffer \<Rightarrow> SampleMatrix option" where
  "matrixOf eye b = (case eye of EyeCombined \<Rightarrow> combined b | EyeLeft \<Rightarrow> left b | EyeRight \<Rightarrow> right b)"

text \<open>
  One of the three blocks of \<^verbatim>\<open>calibrateBinary\<close>:
  \<^verbatim>\<open>if (closedBuffer.X && openBuffer.X && closedBuffer.X[0].length && openBuffer.X[0].length)
    await trainBinary('X', closedBuffer.X, openBuffer.X);\<close>
  \<open>perms eye\<close> is the pair of index permutations drawn for that eye.
\<close>

definition calibrateBinaryEye ::
  "(FitCall \<Rightarrow> LayersModel) \<Rightarrow> (Eye \<Rightarrow> nat list \<times> nat list) \<Rightarrow> CalibrationBuffer \<Rightarrow>
   CalibrationBuffer \<Rightarrow> Eye \<Rightarrow> World \<Rightarrow> World" where
  "calibrateBinaryEye trainer perms closedBuffer openBuffer eye w =
     (case (matrixOf eye closedBuffer, matrixOf eye openBuffer) of
        (Some c, Some opn) \<Rightarrow>
          if length (fst c) \<noteq> 0 \<and> length (fst opn) \<noteq> 0
          then trainBinary trainer (fst (perms eye)) (snd (perms eye)) eye c opn noOpts w
          else w
      | _ \<Rightarrow> w)"

definition calibrateBinary ::
  "(FitCall \<Rightarrow> LayersModel) \<Rightarrow> (Eye \<Rightarrow> nat list \<times> nat list) \<Rightarrow> CalibrationBuffer \<Rightarrow>
   CalibrationBuffer \<Rightarrow> World \<Rightarrow> World" where
  "calibrateBinary trainer perms closedBuffer openBuffer w =
     calibrateBinaryEye trainer perms closedBuffer openBuffer EyeRight
       (calibrateBinaryEye trainer perms closedBuffer openBuffer EyeLeft
         (calibrateBinaryEye trainer perms closedBuffer openBuffer EyeCombined w))"

subsection \<open>labelBlinkExtrema\<close>

record Extremes =
  smooth :: "real list"
  peaks :: "int option list"
  valleys :: "int option list"

definition OPEN_TH_FIXED :: real where
  "OPEN_TH_FIXED = 8 / 10"

definition CLOSE_TH_FIXED :: real where
  "CLOSE_TH_FIXED = 2 / 10"

definition labelBlinkExtrema :: "real list \<Rightarrow> real \<Rightarrow> real \<Rightarrow> Extremes" where
  "labelBlinkExtrema pred openTh closeTh =
     (let sm = smoothSeries pred 5 (35 / 100) in
      if length sm = 0 then \<lparr>smooth = sm, peaks = [], valleys = []\<rparr>
      else
        let st = scanAll sm openTh closeTh;
            (ps, vs) = ensurePairing (peaksAcc st) (valleysAcc st)
        in \<lparr>smooth = sm, peaks = ps, valleys = vs\<rparr>)"

subsection \<open>Blink inference and smooth training\<close>


text \<open>
  An entry of the labeller's \<^verbatim>\<open>peaks\<close> or \<^verbatim>\<open>valleys\<close> handed on as an index. The
  labeller returns only defined, non-negative entries (shown below), so nothing is lost.
\<close>

definition asIndex :: "int option \<Rightarrow> nat" where
  "asIndex v = (case v of Some i \<Rightarrow> nat i | None \<Rightarrow> 0)"




text \<open>What the claims are stated with.\<close>

text \<open>A matrix read through \<^verbatim>\<open>null\<close> as the empty one, and the number of samples stored.\<close>

definition orEmpty :: "SampleMatrix option \<Rightarrow> SampleMatrix" where
  "orEmpty m = (case m of None \<Rightarrow> ([], [], []) | Some x \<Rightarrow> x)"

definition stored :: "SampleMatrix option \<Rightarrow> nat" where
  "stored m = (case m of None \<Rightarrow> 0 | Some x \<Rightarrow> samples x)"

text \<open>The test that guards each append: the timestamp is not \<^verbatim>\<open>null\<close> and is new.\<close>

definition freshTS :: "int option \<Rightarrow> int option \<Rightarrow> bool" where
  "freshTS ts lastTS = (ts \<noteq> None \<and> ts \<noteq> lastTS)"

text \<open>
  Binary training is due for an eye variant: its closed and open matrices are both present
  and both hold a sample.
\<close>

definition binaryReady :: "Eye \<Rightarrow> CalibrationBuffer \<Rightarrow> CalibrationBuffer \<Rightarrow> bool" where
  "binaryReady eye closedBuffer openBuffer =
     (stored (matrixOf eye closedBuffer) \<noteq> 0 \<and> stored (matrixOf eye openBuffer) \<noteq> 0)"

text \<open>
  The class-balanced set for one eye variant: \<open>k\<close> rows of the closed matrix, then \<open>k\<close>
  rows of the open matrix, at the first \<open>k\<close> indices of the two permutations, labelled 0
  and 1, where \<open>k\<close> is the size of the smaller class.
\<close>

definition balancedFit ::
  "(Eye \<Rightarrow> nat list \<times> nat list) \<Rightarrow> CalibrationBuffer \<Rightarrow> CalibrationBuffer \<Rightarrow> Eye \<Rightarrow> FitCall" where
  "balancedFit perms closedBuffer openBuffer eye =
     (let c = orEmpty (matrixOf eye closedBuffer);
          opn = orEmpty (matrixOf eye openBuffer);
          k = min (samples c) (samples opn);
          ic = take k (fst (perms eye));
          io = take k (snd (perms eye))
      in BinaryFit (binKey eye VERSION)
           (map (\<lambda>i. matToFrames c ! i) ic @ map (\<lambda>i. matToFrames opn ! i) io)
           (replicate k 0 @ replicate k 1))"

text \<open>
  The runtime mapping as the specification words it: the smooth model's clamped prediction
  when a smooth model is registered, otherwise the binary model's clamped prediction when a
  binary model is registered, otherwise 1/2.
\<close>

definition mapOpenness_spec :: "World \<Rightarrow> Vec3 \<Rightarrow> Eye \<Rightarrow> Prediction" where
  "mapOpenness_spec w v eye =
     (case models w (smoothKey eye VERSION) of
        Some sm \<Rightarrow> clampPrediction (sm v)
      | None \<Rightarrow>
          (case models w (binKey eye VERSION) of
             Some bm \<Rightarrow> clampPrediction (bm v)
           | None \<Rightarrow> Num (1 / 2)))"

text \<open>A world with no model registered or saved, and nothing fitted or plotted.\<close>

definition emptyWorld :: World where
  "emptyWorld =
     \<lparr>models = Map.empty, saved = Map.empty, fits = [], plots = Map.empty,
      blinkOpenThreshold = None, blinkCloseThreshold = None\<rparr>"

text \<open>
  The ordering signs as the specification words them, for position \<open>j\<close> and the sorted
  extrema: +1 in an interval between consecutive extrema that starts at a valley, -1 in
  one that starts at a peak, 0 outside every interval.
\<close>

fun intervalSign :: "nat list \<Rightarrow> nat list \<Rightarrow> nat list \<Rightarrow> nat \<Rightarrow> int" where
  "intervalSign ps vs (s # e # rest) j =
     (if s \<le> j \<and> j < e
      then (if s \<in> set vs then 1 else if s \<in> set ps then - 1 else 0)
      else intervalSign ps vs (e # rest) j)"
| "intervalSign ps vs _ j = 0"

definition orderingSigns_spec :: "nat \<Rightarrow> nat list \<Rightarrow> nat list \<Rightarrow> int list" where
  "orderingSigns_spec N ps vs = map (intervalSign ps vs (sort (ps @ vs))) [0..<N - 1]"

text \<open>Consecutive extrema are a valley and a peak, in either order.\<close>

fun alternating :: "nat list \<Rightarrow> nat list \<Rightarrow> bool" where
  "alternating vs (s # e # rest) = ((s \<in> set vs) \<noteq> (e \<in> set vs) \<and> alternating vs (e # rest))"
| "alternating vs _ = True"


text \<open>The outer loop of the sign construction by recursion on the extrema, for the proofs.\<close>

fun signList :: "bool \<Rightarrow> nat list \<Rightarrow> int option list \<Rightarrow> int option list" where
  "signList rising (s # e # rest) arr =
     signList (\<not> rising) (e # rest) (fillSign (if rising then 1 else - 1) s e arr)"
| "signList rising _ arr = arr"

text \<open>
  The two terms of the training loss as the specification words them: the anchor term is
  the mean squared error at the extrema, against 1 at each peak index and 0 at each valley
  index; the ordering term is the mean, over the adjacent pairs, of the hinge penalty on
  a step against the sign.
\<close>

definition anchor_spec :: "real list \<Rightarrow> nat list \<Rightarrow> nat list \<Rightarrow> real" where
  "anchor_spec pred ps vs =
     ((\<Sum>i\<leftarrow>ps. (pred ! i - 1) ^ 2) + (\<Sum>i\<leftarrow>vs. (pred ! i - 0) ^ 2)) /
     real (length ps + length vs)"

definition ordering_spec :: "real list \<Rightarrow> real list \<Rightarrow> real" where
  "ordering_spec sign pred =
     (\<Sum>i\<leftarrow>[0..<length pred - 1]. max 0 (- (sign ! i) * (pred ! (i + 1) - pred ! i))) /
     real (length pred - 1)"

text \<open>
  The smoother as the specification defines it, index by index: the median of the sorted
  window, the forward recurrence \<open>fwd[0] = med[0]\<close>,
  \<open>fwd[i] = \<alpha> med[i] + (1 - \<alpha>) fwd[i-1]\<close>, the backward recurrence from the last
  index, and the clamped mean of the two.
\<close>

definition median_ref :: "real list \<Rightarrow> real" where
  "median_ref xs =
     (let w = sort xs; n = length w
      in if even n then (w ! (n div 2 - 1) + w ! (n div 2)) / 2 else w ! (n div 2))"

definition med_ref :: "real list \<Rightarrow> nat \<Rightarrow> nat \<Rightarrow> real" where
  "med_ref xs medWin i =
     (let lo = i - medWin div 2;
          hi = min (length xs) (i + medWin div 2 + 1)
      in median_ref (take (hi - lo) (drop lo xs)))"

fun fwd_ref :: "real \<Rightarrow> real list \<Rightarrow> nat \<Rightarrow> real" where
  "fwd_ref alpha med 0 = med ! 0"
| "fwd_ref alpha med (Suc i) = alpha * med ! Suc i + (1 - alpha) * fwd_ref alpha med i"

function bwd_ref :: "real \<Rightarrow> real list \<Rightarrow> nat \<Rightarrow> real" where
  "bwd_ref alpha med i =
     (if length med \<le> i + 1 then med ! i
      else alpha * med ! i + (1 - alpha) * bwd_ref alpha med (i + 1))"
  by pat_completeness auto
termination
  by (relation "measure (\<lambda>(alpha, med, i). length med - i)") auto

declare bwd_ref.simps [simp del]

definition clamp_ref :: "real \<Rightarrow> real" where
  "clamp_ref x = (if x < 0 then 0 else if 1 < x then 1 else x)"

definition smoothSeries_ref :: "real list \<Rightarrow> nat \<Rightarrow> real \<Rightarrow> real list" where
  "smoothSeries_ref xs medWin alpha =
     (let med = map (med_ref xs medWin) [0..<length xs]
      in map (\<lambda>i. clamp_ref ((fwd_ref alpha med i + bwd_ref alpha med i) / 2)) [0..<length xs])"


text \<open>An entry of the peak or valley list is a defined index into \<open>n\<close> samples.\<close>

definition indexBelow :: "nat \<Rightarrow> int option \<Rightarrow> bool" where
  "indexBelow n v = (case v of None \<Rightarrow> False | Some i \<Rightarrow> 0 \<le> i \<and> i < int n)"

text \<open>
  The invariant of the scan loop before index \<open>k\<close>: the counter of the other state is 0,
  the running counter is below \<open>minRun\<close>, the samples it has counted lie after the segment
  start and the first sample is not among them, and all entries pushed are in range.
\<close>

definition scanInv :: "real list \<Rightarrow> real \<Rightarrow> real \<Rightarrow> nat \<Rightarrow> scan \<Rightarrow> bool" where
  "scanInv sm openTh closeTh k st =
     (0 \<le> segStart st \<and>
      (state st = CLOSED \<longrightarrow> underRun st = 0 \<and> overRun st < minRun) \<and>
      (state st = OPEN \<longrightarrow> overRun st = 0 \<and> underRun st < minRun) \<and>
      (if k = 0
       then segStart st = 0 \<and> overRun st = 0 \<and> underRun st = 0 \<and>
            (state st = OPEN) = (sm ! 0 \<ge> (openTh + closeTh) / 2)
       else segStart st + int (overRun st) + int (underRun st) < int k) \<and>
      list_all (indexBelow (length sm)) (peaksAcc st) \<and>
      list_all (indexBelow (length sm)) (valleysAcc st))"

text \<open>
  The labelling procedure as the specification gives it, steps 2 to 5, on indices that
  are natural numbers and with one run counter for the current state.
\<close>

record refScan =
  refState :: State
  refStart :: nat
  refRun :: nat
  refPeaks :: "nat list"
  refValleys :: "nat list"

text \<open>The index at position \<open>\<lfloor>len / 2\<rfloor>\<close> of the plateau of indices of the segment that attain \<open>v\<close>.\<close>

definition plateauMiddle :: "real list \<Rightarrow> real \<Rightarrow> nat \<Rightarrow> nat \<Rightarrow> nat" where
  "plateauMiddle sm v s e =
     (let plateau = filter (\<lambda>i. sm ! i = v) [s..<Suc e]
      in plateau ! (length plateau div 2))"

definition finalize_ref :: "real list \<Rightarrow> nat \<Rightarrow> refScan \<Rightarrow> refScan" where
  "finalize_ref sm e r =
     (case refState r of
        CLOSED \<Rightarrow>
          r\<lparr>refValleys := refValleys r @
               [plateauMiddle sm (Min ((\<lambda>i. sm ! i) ` {refStart r..e})) (refStart r) e]\<rparr>
      | OPEN \<Rightarrow>
          r\<lparr>refPeaks := refPeaks r @
               [plateauMiddle sm (Max ((\<lambda>i. sm ! i) ` {refStart r..e})) (refStart r) e]\<rparr>)"

definition step_ref :: "real list \<Rightarrow> real \<Rightarrow> real \<Rightarrow> nat \<Rightarrow> refScan \<Rightarrow> refScan" where
  "step_ref sm openTh closeTh i r =
     (let beyond = (case refState r of CLOSED \<Rightarrow> sm ! i \<ge> openTh | OPEN \<Rightarrow> sm ! i \<le> closeTh);
          run = (if beyond then refRun r + 1 else 0)
      in if run = minRun
         then (finalize_ref sm (i - minRun) r)
                \<lparr>refState := (case refState r of CLOSED \<Rightarrow> OPEN | OPEN \<Rightarrow> CLOSED),
                 refStart := i - minRun + 1, refRun := 0\<rparr>
         else r\<lparr>refRun := run\<rparr>)"

definition init_ref :: "real list \<Rightarrow> real \<Rightarrow> real \<Rightarrow> refScan" where
  "init_ref sm openTh closeTh =
     \<lparr>refState = (if sm ! 0 \<ge> (openTh + closeTh) / 2 then OPEN else CLOSED),
      refStart = 0, refRun = 0, refPeaks = [], refValleys = []\<rparr>"

definition label_ref :: "real list \<Rightarrow> real \<Rightarrow> real \<Rightarrow> refScan" where
  "label_ref sm openTh closeTh =
     finalize_ref sm (length sm - 1)
       (fold (step_ref sm openTh closeTh) [0..<length sm] (init_ref sm openTh closeTh))"

text \<open>The scan state of the code and the state of the reference procedure agree.\<close>

definition agrees :: "scan \<Rightarrow> refScan \<Rightarrow> bool" where
  "agrees st r =
     (state st = refState r \<and> segStart st = int (refStart r) \<and>
      overRun st + underRun st = refRun r \<and>
      peaksAcc st = map (\<lambda>i. Some (int i)) (refPeaks r) \<and>
      valleysAcc st = map (\<lambda>i. Some (int i)) (refValleys r))"

text \<open>
  The labels of an extrema set merged and sorted by index (\<^const>\<open>OPEN\<close> for a peak,
  \<^const>\<open>CLOSED\<close> for a valley), and the pairing that the specification asks of them:
  valley, peak, valley, peak, with no peak left at the front and no valley left at the end.
\<close>

definition mergedLabels :: "int option list \<Rightarrow> int option list \<Rightarrow> State list" where
  "mergedLabels ps vs =
     map snd (sort_key (\<lambda>(v, l). asIndex v) (map (\<lambda>v. (v, OPEN)) ps @ map (\<lambda>v. (v, CLOSED)) vs))"

fun valleyThenPeak :: "State list \<Rightarrow> bool" where
  "valleyThenPeak [] = True"
| "valleyThenPeak (CLOSED # OPEN # rest) = valleyThenPeak rest"
| "valleyThenPeak _ = False"

section \<open>Properties\<close>

subsection \<open>Smoothing\<close>

lemma js_slice_window:
  "0 \<le> s \<Longrightarrow> 0 \<le> e \<Longrightarrow> e \<le> int (length xs) \<Longrightarrow>
   js_slice xs s e = take (nat e - nat s) (drop (nat s) xs)"
proof -
  assume a: "0 \<le> s" "0 \<le> e" "e \<le> int (length xs)"
  have d: "nat (e - s) = nat e - nat s" using a by arith
  have t: "take (nat e - nat s) (drop (length xs) xs) = []" by simp
  show ?thesis
    using a by (auto simp: js_slice_def Let_def min_def d)
qed

lemma medianAt_med_ref:
  assumes "i < length xs"
  shows "medianAt xs medWin i = med_ref xs medWin i"
proof -
  define h where "h = medWin div 2"
  have s: "nat (max 0 (int i - int h)) = i - h" by arith
  have e: "nat (min (int (length xs)) (int i + int h + 1)) = min (length xs) (i + h + 1)"
    by arith
  have sl: "js_slice xs (max 0 (int i - int h)) (min (int (length xs)) (int i + int h + 1)) =
        take (min (length xs) (i + h + 1) - (i - h)) (drop (i - h) xs)"
    by (subst js_slice_window) (simp_all add: s e)
  show ?thesis
    unfolding medianAt_def med_ref_def median_ref_def Let_def h_def [symmetric] sl
    by (simp add: even_iff_mod_2_eq_zero)
qed

lemma emaForward_ref:
  "0 < i \<Longrightarrow> i \<le> length med \<Longrightarrow> length fwd = length med \<Longrightarrow>
   acc = fwd_ref alpha med (i - 1) \<Longrightarrow> (\<forall>j < i. fwd ! j = fwd_ref alpha med j) \<Longrightarrow>
   emaForward alpha med i acc fwd = map (fwd_ref alpha med) [0..<length med]"
proof (induction alpha med i acc fwd rule: emaForward.induct)
  case (1 alpha med i acc fwd)
  show ?case
  proof (cases "i < length med")
    case True
    define acc' where "acc' = alpha * med ! i + (1 - alpha) * acc"
    have a: "acc' = fwd_ref alpha med i"
      using "1.prems"(1,4) by (cases i) (simp_all add: acc'_def)
    have "emaForward alpha med (i + 1) acc' (fwd[i := acc']) = map (fwd_ref alpha med) [0..<length med]"
    proof (rule "1.IH" [OF True acc'_def])
      show "\<forall>j < i + 1. fwd[i := acc'] ! j = fwd_ref alpha med j"
        using "1.prems"(3,5) True a by (auto simp: nth_list_update less_Suc_eq)
    qed (use True "1.prems" a in simp_all)
    then show ?thesis
      using True by (subst emaForward.simps) (simp add: Let_def acc'_def)
  next
    case False
    then have "i = length med" using "1.prems"(2) by simp
    then have "fwd = map (fwd_ref alpha med) [0..<length med]"
      using "1.prems"(3,5) by (intro nth_equalityI) simp_all
    then show ?thesis using False by (subst emaForward.simps) simp
  qed
qed

lemma emaForward_any_init:
  assumes "med \<noteq> []" "length fwd = length med" "fwd ! 0 = med ! 0"
  shows "emaForward alpha med 1 (med ! 0) fwd = map (fwd_ref alpha med) [0..<length med]"
  using assms by (intro emaForward_ref) (simp_all add: Suc_leI)

lemma emaBackward_ref:
  "- 1 \<le> i \<Longrightarrow> i + 1 < int (length med) \<Longrightarrow> length bwd = length med \<Longrightarrow>
   acc = bwd_ref alpha med (nat (i + 1)) \<Longrightarrow>
   (\<forall>j. nat (i + 1) \<le> j \<and> j < length med \<longrightarrow> bwd ! j = bwd_ref alpha med j) \<Longrightarrow>
   emaBackward alpha med i acc bwd = map (bwd_ref alpha med) [0..<length med]"
proof (induction alpha med i acc bwd rule: emaBackward.induct)
  case (1 alpha med i acc bwd)
  show ?case
  proof (cases "0 \<le> i")
    case True
    define acc' where "acc' = alpha * med ! nat i + (1 - alpha) * acc"
    have n: "nat (i + 1) = nat i + 1" using True by simp
    have c: "\<not> length med \<le> nat i + 1" using "1.prems"(2) True by linarith
    have a: "acc' = bwd_ref alpha med (nat i)"
      using "1.prems"(4) c bwd_ref.simps [of alpha med "nat i"] by (simp add: acc'_def n)
    have i_lt: "nat i < length med" using "1.prems"(2) True by simp
    have "emaBackward alpha med (i - 1) acc' (bwd[nat i := acc']) = map (bwd_ref alpha med) [0..<length med]"
    proof (rule "1.IH" [OF True acc'_def])
      show "\<forall>j. nat (i - 1 + 1) \<le> j \<and> j < length med \<longrightarrow> bwd[nat i := acc'] ! j = bwd_ref alpha med j"
      proof (intro allI impI)
        fix j assume j: "nat (i - 1 + 1) \<le> j \<and> j < length med"
        show "bwd[nat i := acc'] ! j = bwd_ref alpha med j"
        proof (cases "j = nat i")
          case True
          then show ?thesis using a i_lt "1.prems"(3) by simp
        next
          case False
          then have "nat (i + 1) \<le> j" using j n by simp
          then show ?thesis using "1.prems"(5) j False by simp
        qed
      qed
    qed (use True "1.prems" a in simp_all)
    then show ?thesis
      using True by (subst emaBackward.simps) (simp add: Let_def acc'_def)
  next
    case False
    then have "i = - 1" using "1.prems"(1) by simp
    then have "bwd = map (bwd_ref alpha med) [0..<length med]"
      using "1.prems"(3,5) by (intro nth_equalityI) simp_all
    then show ?thesis using False by (subst emaBackward.simps) simp
  qed
qed

lemma emaBackward_any_init:
  assumes "med \<noteq> []" "length bwd = length med" "bwd ! (length med - 1) = med ! (length med - 1)"
  shows "emaBackward alpha med (int (length med) - 2) (med ! (length med - 1)) bwd =
         map (bwd_ref alpha med) [0..<length med]"
proof (rule emaBackward_ref)
  have n: "nat (int (length med) - 2 + 1) = length med - 1" by simp
  show "med ! (length med - 1) = bwd_ref alpha med (nat (int (length med) - 2 + 1))"
    unfolding n using assms(1) by (subst bwd_ref.simps) simp
  show "\<forall>j. nat (int (length med) - 2 + 1) \<le> j \<and> j < length med \<longrightarrow> bwd ! j = bwd_ref alpha med j"
  proof (intro allI impI)
    fix j assume "nat (int (length med) - 2 + 1) \<le> j \<and> j < length med"
    then have j: "j = length med - 1" unfolding n by linarith
    show "bwd ! j = bwd_ref alpha med j"
      unfolding j using assms(1,3) by (subst bwd_ref.simps) simp
  qed
qed (use assms in \<open>simp_all add: Suc_leI\<close>)

lemma clamp_ref_eq: "max 0 (min 1 y) = clamp_ref y"
  by (simp add: clamp_ref_def max_def min_def)

lemma smoothSeries_eq_ref: "smoothSeries xs medWin alpha = smoothSeries_ref xs medWin alpha"
proof (cases "xs = []")
  case True
  then show ?thesis by (simp add: smoothSeries_def smoothSeries_ref_def)
next
  case False
  define n where "n = length xs"
  define med where "med = map (medianAt xs medWin) [0..<length xs]"
  have lm: "length med = n" and mne: "med \<noteq> []" using False by (simp_all add: med_def n_def)
  have med_eq: "med = map (med_ref xs medWin) [0..<length xs]"
    unfolding med_def by (rule map_cong) (simp_all add: medianAt_med_ref)
  have n_pos: "0 < n" using False by (simp add: n_def)
  have f: "emaForward alpha med 1 (med ! 0) ((replicate (length med) 0)[0 := med ! 0]) =
        map (fwd_ref alpha med) [0..<n]"
    using emaForward_any_init [OF mne, of "(replicate (length med) 0)[0 := med ! 0]" alpha] lm n_pos
    by simp
  have b: "emaBackward alpha med (int (length med) - 2) (med ! (length med - 1))
          ((replicate (length med) 0)[length med - 1 := med ! (length med - 1)]) =
        map (bwd_ref alpha med) [0..<n]"
    using emaBackward_any_init [OF mne, of "(replicate (length med) 0)[length med - 1 := med ! (length med - 1)]" alpha] lm n_pos
    by simp
  have out: "map (\<lambda>(i, v). (v + map (bwd_ref alpha med) [0..<n] ! i) / 2)
               (enumerate 0 (map (fwd_ref alpha med) [0..<n])) =
             map (\<lambda>i. (fwd_ref alpha med i + bwd_ref alpha med i) / 2) [0..<n]"
    by (rule nth_equalityI) (simp_all add: nth_enumerate_eq)
  have "smoothSeries xs medWin alpha =
        map (\<lambda>y. max 0 (min 1 y)) (map (\<lambda>i. (fwd_ref alpha med i + bwd_ref alpha med i) / 2) [0..<n])"
    using False unfolding smoothSeries_def Let_def med_def [symmetric] f b out by simp
  also have "\<dots> = smoothSeries_ref xs medWin alpha"
    unfolding smoothSeries_ref_def Let_def med_eq [symmetric]
    by (simp add: clamp_ref_eq comp_def n_def)
  finally show ?thesis .
qed

lemma medianAt_window_nonempty:
  assumes "i < length xs"
  shows "js_slice xs (max 0 (int i - int (medWin div 2)))
           (min (int (length xs)) (int i + int (medWin div 2) + 1)) \<noteq> []"
proof -
  have s: "nat (max 0 (int i - int (medWin div 2))) = i - medWin div 2" by arith
  have e: "nat (min (int (length xs)) (int i + int (medWin div 2) + 1)) =
           min (length xs) (i + medWin div 2 + 1)" by arith
  have "js_slice xs (max 0 (int i - int (medWin div 2)))
           (min (int (length xs)) (int i + int (medWin div 2) + 1)) =
        take (min (length xs) (i + medWin div 2 + 1) - (i - medWin div 2))
          (drop (i - medWin div 2) xs)"
    by (subst js_slice_window) (simp_all add: s e)
  moreover have "0 < min (length xs) (i + medWin div 2 + 1) - (i - medWin div 2)"
    using assms by arith
  moreover have "i - medWin div 2 < length xs" using assms by arith
  ultimately show ?thesis by simp
qed

text \<open>
  Claim C3. With window 5 and \<open>\<alpha> = 0.35\<close>, \<open>smoothSeries\<close> returns the sequence that
  the reference definition gives, of the length of its input; the empty input gives the
  empty output.
\<close>

theorem smoothSeries_reference:
  "smoothSeries xs 5 (35 / 100) = smoothSeries_ref xs 5 (35 / 100) \<and>
   length (smoothSeries xs 5 (35 / 100)) = length xs \<and>
   smoothSeries [] 5 (35 / 100) = []"
  by (simp add: smoothSeries_eq_ref) (simp add: smoothSeries_ref_def Let_def)



subsection \<open>Calibration buffers\<close>

lemma ensureMatrices_Some:
  "combined (ensureMatrices b) \<noteq> None \<and> left (ensureMatrices b) \<noteq> None \<and>
   right (ensureMatrices b) \<noteq> None"
  by (simp add: ensureMatrices_def Let_def)

lemma ensureMatrices_fields:
  "combined (ensureMatrices b) = Some (case combined b of None \<Rightarrow> ([], [], []) | Some m \<Rightarrow> m)"
  "left (ensureMatrices b) = Some (case left b of None \<Rightarrow> ([], [], []) | Some m \<Rightarrow> m)"
  "right (ensureMatrices b) = Some (case right b of None \<Rightarrow> ([], [], []) | Some m \<Rightarrow> m)"
  "lastCombinedTS (ensureMatrices b) = lastCombinedTS b"
  "lastLeftTS (ensureMatrices b) = lastLeftTS b"
  "lastRightTS (ensureMatrices b) = lastRightTS b"
  "ongoing (ensureMatrices b) = ongoing b"
  by (simp_all add: ensureMatrices_def Let_def split: option.splits)

lemma ensureMatrices_idem:
  "combined b \<noteq> None \<Longrightarrow> left b \<noteq> None \<Longrightarrow> right b \<noteq> None \<Longrightarrow> ensureMatrices b = b"
  by (simp add: ensureMatrices_def Let_def)

lemma ensureMatrices_eq:
  "ensureMatrices b = b\<lparr>combined := Some (orEmpty (combined b)), left := Some (orEmpty (left b)), right := Some (orEmpty (right b))\<rparr>"
  by (cases b; cases "combined b"; cases "left b"; cases "right b") (simp_all add: ensureMatrices_def orEmpty_def)

lemma appendSamples_fields:
  "combined (appendSamples b cts lts rts l ll lr) =
     Some ((if cts \<noteq> None \<and> cts \<noteq> lastCombinedTS b then pushLatents l else id) (orEmpty (combined b)))"
  "left (appendSamples b cts lts rts l ll lr) =
     Some ((if lts \<noteq> None \<and> lts \<noteq> lastLeftTS b then pushLatents ll else id) (orEmpty (left b)))"
  "right (appendSamples b cts lts rts l ll lr) =
     Some ((if rts \<noteq> None \<and> rts \<noteq> lastRightTS b then pushLatents lr else id) (orEmpty (right b)))"
  "lastCombinedTS (appendSamples b cts lts rts l ll lr) =
     (if cts \<noteq> None \<and> cts \<noteq> lastCombinedTS b then cts else lastCombinedTS b)"
  "lastLeftTS (appendSamples b cts lts rts l ll lr) =
     (if lts \<noteq> None \<and> lts \<noteq> lastLeftTS b then lts else lastLeftTS b)"
  "lastRightTS (appendSamples b cts lts rts l ll lr) =
     (if rts \<noteq> None \<and> rts \<noteq> lastRightTS b then rts else lastRightTS b)"
  "ongoing (appendSamples b cts lts rts l ll lr) = ongoing b"
proof -
  define b0 where "b0 = ensureMatrices b"
  define b1 where "b1 = (if cts \<noteq> None \<and> cts \<noteq> lastCombinedTS b0
      then b0\<lparr>combined := map_option (pushLatents l) (combined b0), lastCombinedTS := cts\<rparr> else b0)"
  define b2 where "b2 = (if lts \<noteq> None \<and> lts \<noteq> lastLeftTS b1
      then b1\<lparr>left := map_option (pushLatents ll) (left b1), lastLeftTS := lts\<rparr> else b1)"
  define b3 where "b3 = (if rts \<noteq> None \<and> rts \<noteq> lastRightTS b2
      then b2\<lparr>right := map_option (pushLatents lr) (right b2), lastRightTS := rts\<rparr> else b2)"
  have e: "appendSamples b cts lts rts l ll lr = b3"
    unfolding appendSamples_def Let_def b3_def b2_def b1_def b0_def ..
  have f0: "combined b0 = Some (orEmpty (combined b))" "left b0 = Some (orEmpty (left b))"
    "right b0 = Some (orEmpty (right b))" "lastCombinedTS b0 = lastCombinedTS b"
    "lastLeftTS b0 = lastLeftTS b" "lastRightTS b0 = lastRightTS b" "ongoing b0 = ongoing b"
    by (simp_all add: b0_def ensureMatrices_eq)
  have f1: "combined b1 = Some ((if cts \<noteq> None \<and> cts \<noteq> lastCombinedTS b then pushLatents l else id) (orEmpty (combined b)))"
    "lastCombinedTS b1 = (if cts \<noteq> None \<and> cts \<noteq> lastCombinedTS b then cts else lastCombinedTS b)"
    "left b1 = left b0" "right b1 = right b0" "lastLeftTS b1 = lastLeftTS b0"
    "lastRightTS b1 = lastRightTS b0" "ongoing b1 = ongoing b0"
    by (simp_all add: b1_def f0)
  have f2: "left b2 = Some ((if lts \<noteq> None \<and> lts \<noteq> lastLeftTS b then pushLatents ll else id) (orEmpty (left b)))"
    "lastLeftTS b2 = (if lts \<noteq> None \<and> lts \<noteq> lastLeftTS b then lts else lastLeftTS b)"
    "combined b2 = combined b1" "right b2 = right b1" "lastCombinedTS b2 = lastCombinedTS b1"
    "lastRightTS b2 = lastRightTS b1" "ongoing b2 = ongoing b1"
    by (simp_all add: b2_def f1 f0)
  have f3: "right b3 = Some ((if rts \<noteq> None \<and> rts \<noteq> lastRightTS b then pushLatents lr else id) (orEmpty (right b)))"
    "lastRightTS b3 = (if rts \<noteq> None \<and> rts \<noteq> lastRightTS b then rts else lastRightTS b)"
    "combined b3 = combined b2" "left b3 = left b2" "lastCombinedTS b3 = lastCombinedTS b2"
    "lastLeftTS b3 = lastLeftTS b2" "ongoing b3 = ongoing b2"
    by (simp_all add: b3_def f2 f1 f0)
  show "combined (appendSamples b cts lts rts l ll lr) =
     Some ((if cts \<noteq> None \<and> cts \<noteq> lastCombinedTS b then pushLatents l else id) (orEmpty (combined b)))"
    by (simp only: e f3 f2 f1)
  show "left (appendSamples b cts lts rts l ll lr) =
     Some ((if lts \<noteq> None \<and> lts \<noteq> lastLeftTS b then pushLatents ll else id) (orEmpty (left b)))"
    by (simp only: e f3 f2)
  show "right (appendSamples b cts lts rts l ll lr) =
     Some ((if rts \<noteq> None \<and> rts \<noteq> lastRightTS b then pushLatents lr else id) (orEmpty (right b)))"
    by (simp only: e f3)
  show "lastCombinedTS (appendSamples b cts lts rts l ll lr) =
     (if cts \<noteq> None \<and> cts \<noteq> lastCombinedTS b then cts else lastCombinedTS b)"
    by (simp only: e f3 f2 f1)
  show "lastLeftTS (appendSamples b cts lts rts l ll lr) =
     (if lts \<noteq> None \<and> lts \<noteq> lastLeftTS b then lts else lastLeftTS b)"
    by (simp only: e f3 f2)
  show "lastRightTS (appendSamples b cts lts rts l ll lr) =
     (if rts \<noteq> None \<and> rts \<noteq> lastRightTS b then rts else lastRightTS b)"
    by (simp only: e f3)
  show "ongoing (appendSamples b cts lts rts l ll lr) = ongoing b"
    by (simp only: e f3 f2 f1 f0)
qed

lemma appendSamples_repeat:
  "appendSamples (appendSamples b cts lts rts l ll lr) cts lts rts l ll lr =
   appendSamples b cts lts rts l ll lr"
  by (rule CalibrationBuffer.equality) (simp_all add: appendSamples_fields orEmpty_def)

lemma stored_pushLatents: "stored (Some (pushLatents l m)) = stored (Some m) + 1"
  by (cases m) (simp add: stored_def samples_def pushLatents_def)

lemma stored_orEmpty: "stored (Some (orEmpty m)) = stored m"
  by (cases m) (simp_all add: stored_def orEmpty_def samples_def)

text \<open>
  Claim C7. For each eye variant, \<open>appendSamples\<close> pushes the sample and records the
  timestamp exactly when the incoming timestamp is not null and differs from the last
  recorded one; otherwise that variant's matrix and timestamp stay as they are (an absent
  matrix having become the empty one). Calling it a second time with the same arguments
  returns the buffer of the first call, so a repeated notification stores one sample.
\<close>

theorem appendSamples_dedup:
  "(let b1 = appendSamples b cts lts rts l ll lr;
        b2 = appendSamples b1 cts lts rts l ll lr
    in combined b1 =
         Some ((if freshTS cts (lastCombinedTS b) then pushLatents l else id) (orEmpty (combined b)))
     \<and> left b1 =
         Some ((if freshTS lts (lastLeftTS b) then pushLatents ll else id) (orEmpty (left b)))
     \<and> right b1 =
         Some ((if freshTS rts (lastRightTS b) then pushLatents lr else id) (orEmpty (right b)))
     \<and> lastCombinedTS b1 = (if freshTS cts (lastCombinedTS b) then cts else lastCombinedTS b)
     \<and> lastLeftTS b1 = (if freshTS lts (lastLeftTS b) then lts else lastLeftTS b)
     \<and> lastRightTS b1 = (if freshTS rts (lastRightTS b) then rts else lastRightTS b)
     \<and> stored (combined b1) = stored (combined b) + (if freshTS cts (lastCombinedTS b) then 1 else 0)
     \<and> stored (left b1) = stored (left b) + (if freshTS lts (lastLeftTS b) then 1 else 0)
     \<and> stored (right b1) = stored (right b) + (if freshTS rts (lastRightTS b) then 1 else 0)
     \<and> b2 = b1)"
  unfolding Let_def freshTS_def
  by (simp add: appendSamples_fields appendSamples_repeat stored_pushLatents stored_orEmpty)

theorem appendSamples_dedup_witness:
  "freshTS (Some 7) (lastCombinedTS makeBuffer) \<and> \<not> freshTS None (lastLeftTS makeBuffer) \<and>
   (let l = \<lparr>unsupervised1 = 1, unsupervised2 = 2, unsupervised3 = 3\<rparr>;
        b1 = appendSamples makeBuffer (Some 7) None (Some 7) l l l;
        b2 = appendSamples b1 (Some 7) None (Some 7) l l l
    in combined b1 = Some ([1], [2], [3]) \<and> left b1 = Some ([], [], []) \<and>
       lastCombinedTS b1 = Some 7 \<and> lastLeftTS b1 = None \<and>
       stored (combined b2) = 1 \<and> stored (left b2) = 0 \<and> b2 = b1)"
  using appendSamples_dedup [of makeBuffer "Some 7" None "Some 7"
      "\<lparr>unsupervised1 = 1, unsupervised2 = 2, unsupervised3 = 3\<rparr>"
      "\<lparr>unsupervised1 = 1, unsupervised2 = 2, unsupervised3 = 3\<rparr>"
      "\<lparr>unsupervised1 = 1, unsupervised2 = 2, unsupervised3 = 3\<rparr>"]
  by (simp add: Let_def freshTS_def makeBuffer_def orEmpty_def pushLatents_def stored_def
      samples_def)

subsection \<open>Runtime mapping\<close>

text \<open>
  Claim C6, as amended. \<open>mapOpenness\<close> returns the smooth model's prediction clamped to
  [0,1] when a smooth model is registered under the eye's key and its prediction is not
  NaN. Otherwise, that is when no smooth model is registered or the registered one puts out
  NaN, it returns the answer of the binary side: the binary model's prediction clamped to
  [0,1] (NaN when that prediction is NaN) when a binary model is registered, and 1/2 when
  none is.
\<close>

theorem mapOpenness_fallback:
  "mapOpenness w v eye =
     (let binaryAnswer =
            (case models w (binKey eye VERSION) of
               None \<Rightarrow> Num (1 / 2)
             | Some bm \<Rightarrow> (case bm v of NaN \<Rightarrow> NaN | Num y \<Rightarrow> Num (min (max y 0) 1)))
      in case models w (smoothKey eye VERSION) of
           None \<Rightarrow> binaryAnswer
         | Some sm \<Rightarrow> (case sm v of NaN \<Rightarrow> binaryAnswer | Num x \<Rightarrow> Num (min (max x 0) 1)))"
  by (simp add: mapOpenness_def predictSmooth_def predictBinary_def registryGet_def
      clampPrediction_def clamp01_def Let_def split: option.splits Prediction.splits)

theorem mapOpenness_fallback_witness:
  "mapOpenness
     (emptyWorld\<lparr>models := [smoothKey EyeLeft VERSION \<mapsto> (\<lambda>v. Num 2),
                             binKey EyeLeft VERSION \<mapsto> (\<lambda>v. Num (9 / 10))]\<rparr>)
     (0, 0, 0) EyeLeft = Num 1 \<and>
   mapOpenness
     (emptyWorld\<lparr>models := [smoothKey EyeLeft VERSION \<mapsto> (\<lambda>v. NaN),
                             binKey EyeLeft VERSION \<mapsto> (\<lambda>v. Num (- 3))]\<rparr>)
     (0, 0, 0) EyeLeft = Num 0 \<and>
   mapOpenness
     (emptyWorld\<lparr>models := [smoothKey EyeLeft VERSION \<mapsto> (\<lambda>v. NaN)]\<rparr>)
     (0, 0, 0) EyeLeft = Num (1 / 2) \<and>
   mapOpenness emptyWorld (0, 0, 0) EyeLeft = Num (1 / 2)"
  using
    mapOpenness_fallback [of "emptyWorld\<lparr>models := [smoothKey EyeLeft VERSION \<mapsto> (\<lambda>v. Num 2),
                             binKey EyeLeft VERSION \<mapsto> (\<lambda>v. Num (9 / 10))]\<rparr>" "(0, 0, 0)" EyeLeft]
    mapOpenness_fallback [of "emptyWorld\<lparr>models := [smoothKey EyeLeft VERSION \<mapsto> (\<lambda>v. NaN),
                             binKey EyeLeft VERSION \<mapsto> (\<lambda>v. Num (- 3))]\<rparr>" "(0, 0, 0)" EyeLeft]
    mapOpenness_fallback [of "emptyWorld\<lparr>models := [smoothKey EyeLeft VERSION \<mapsto> (\<lambda>v. NaN)]\<rparr>"
      "(0, 0, 0)" EyeLeft]
    mapOpenness_fallback [of emptyWorld "(0, 0, 0)" EyeLeft]
  by (simp add: emptyWorld_def smoothKey_def binKey_def withVersion_def VERSION_def)

text \<open>
  Claim C6 as stated fails. With a smooth model registered whose prediction is NaN and a
  binary model registered whose prediction is 0.9, \<open>mapOpenness\<close> returns 0.9, the binary
  model's answer, where the claim has the smooth model's prediction. The answer follows
  the binary model (0.9 or 0.1) although the registered smooth model is the same.
\<close>

theorem mapOpenness_counterexample:
  "(let sm = (\<lambda>v. NaN);
        w1 = emptyWorld\<lparr>models := [smoothKey EyeLeft VERSION \<mapsto> sm,
                                     binKey EyeLeft VERSION \<mapsto> (\<lambda>v. Num (9 / 10))]\<rparr>;
        w2 = emptyWorld\<lparr>models := [smoothKey EyeLeft VERSION \<mapsto> sm,
                                     binKey EyeLeft VERSION \<mapsto> (\<lambda>v. Num (1 / 10))]\<rparr>
    in models w1 (smoothKey EyeLeft VERSION) = Some sm \<and>
       models w2 (smoothKey EyeLeft VERSION) = Some sm \<and>
       mapOpenness w1 (0, 0, 0) EyeLeft = Num (9 / 10) \<and>
       mapOpenness w2 (0, 0, 0) EyeLeft = Num (1 / 10) \<and>
       mapOpenness_spec w1 (0, 0, 0) EyeLeft = NaN \<and>
       mapOpenness w1 (0, 0, 0) EyeLeft \<noteq> mapOpenness_spec w1 (0, 0, 0) EyeLeft)"
  by (simp add: mapOpenness_def mapOpenness_spec_def predictSmooth_def predictBinary_def
      registryGet_def clampPrediction_def clamp01_def emptyWorld_def smoothKey_def binKey_def
      withVersion_def VERSION_def Let_def)

subsection \<open>Binary calibration\<close>

lemma fits_registrySet: "fits (registrySet key m p w) = fits w"
  by (simp add: registrySet_def Let_def)

lemma rows_of_mapped_columns:
  "map (\<lambda>i. (map f xs ! i, map g xs ! i, map h xs ! i)) [0..<length xs] =
   map (\<lambda>x. (f x, g x, h x)) xs"
  by (rule nth_equalityI) simp_all

lemma matrixToTensor_down:
  assumes "set (take k perm) \<subseteq> {..<samples m}"
  shows "matrixToTensor (down k perm m) = map (\<lambda>i. matToFrames m ! i) (take k perm)"
proof (cases m)
  case (fields c0 c1 c2)
  have in_range: "\<And>j. j \<in> set (take k perm) \<Longrightarrow> j < length c0"
    using assms fields by (auto simp: samples_def)
  have "matrixToTensor (down k perm m) =
        map (\<lambda>j. (c0 ! j, c1 ! j, c2 ! j)) (take k perm)"
    using fields rows_of_mapped_columns [of "\<lambda>i. c0 ! i" "take k perm" "\<lambda>i. c1 ! i" "\<lambda>i. c2 ! i"]
    by (simp add: matrixToTensor_def down_def Let_def)
  also have "\<dots> = map (\<lambda>i. matToFrames m ! i) (take k perm)"
    using fields in_range by (simp add: matToFrames_def)
  finally show ?thesis .
qed

lemma perm_take:
  assumes "mset perm = mset [0..<n]" "k \<le> n"
  shows "length (take k perm) = k" "distinct (take k perm)" "set (take k perm) \<subseteq> {..<n}"
proof -
  have len: "length perm = n" using assms(1) by (metis length_upt mset_eq_length minus_nat.diff_0)
  have d: "distinct perm" using assms(1) by (metis distinct_upt mset_eq_imp_distinct_iff)
  have s: "set perm = {..<n}" using assms(1) by (metis atLeast_upt mset_eq_setD)
  show "length (take k perm) = k" using len assms(2) by simp
  show "distinct (take k perm)" using d by simp
  show "set (take k perm) \<subseteq> {..<n}" using s set_take_subset by fastforce
qed

lemma fits_calibrateBinaryEye:
  assumes "binaryReady eye cb ob \<longrightarrow>
             mset (fst (perms eye)) = mset [0..<stored (matrixOf eye cb)] \<and>
             mset (snd (perms eye)) = mset [0..<stored (matrixOf eye ob)]"
  shows "fits (calibrateBinaryEye trainer perms cb ob eye w) =
         fits w @ (if binaryReady eye cb ob then [balancedFit perms cb ob eye] else [])"
proof (cases "binaryReady eye cb ob")
  case False
  then show ?thesis
    by (auto simp: calibrateBinaryEye_def binaryReady_def stored_def samples_def split: option.splits)
next
  case True
  then obtain c opn where c: "matrixOf eye cb = Some c" and o: "matrixOf eye ob = Some opn"
    and nc: "samples c \<noteq> 0" and no: "samples opn \<noteq> 0"
    by (auto simp: binaryReady_def stored_def split: option.splits)
  define k where "k = min (samples c) (samples opn)"
  have pc: "mset (fst (perms eye)) = mset [0..<samples c]" and po: "mset (snd (perms eye)) = mset [0..<samples opn]"
    using assms True c o by (simp_all add: stored_def)
  have tc: "matrixToTensor (down k (fst (perms eye)) c) = map (\<lambda>i. matToFrames c ! i) (take k (fst (perms eye)))"
    by (rule matrixToTensor_down) (use perm_take(3)[OF pc, of k] k_def in simp)
  have to: "matrixToTensor (down k (snd (perms eye)) opn) = map (\<lambda>i. matToFrames opn ! i) (take k (snd (perms eye)))"
    by (rule matrixToTensor_down) (use perm_take(3)[OF po, of k] k_def in simp)
  show ?thesis
    using True c o nc no tc to
    by (simp add: calibrateBinaryEye_def trainBinary_def Let_def fits_registrySet noOpts_def
        balancedFit_def orEmpty_def samples_def k_def)
qed


lemma Eye_all: "(\<forall>eye::Eye. P eye) = (P EyeCombined \<and> P EyeLeft \<and> P EyeRight)"
  by (metis Eye.exhaust)

text \<open>
  Claim C8. Given, for every eye variant that is due, index permutations of its closed and
  open matrices, \<open>calibrateBinary\<close> calls the trainer for exactly the eye variants whose
  closed and open matrices are both present and non-empty, in the order combined, left,
  right, each time with the class-balanced set: \<open>k = min(|closed|, |open|)\<close> rows of each
  class, taken at \<open>k\<close> distinct in-range indices, labelled 0 for closed and 1 for open.
\<close>

theorem calibrateBinary_balanced:
  assumes "\<forall>eye. binaryReady eye cb ob \<longrightarrow>
             mset (fst (perms eye)) = mset [0..<stored (matrixOf eye cb)] \<and>
             mset (snd (perms eye)) = mset [0..<stored (matrixOf eye ob)]"
  shows "fits (calibrateBinary trainer perms cb ob w) =
           fits w @ map (balancedFit perms cb ob)
                      (filter (\<lambda>eye. binaryReady eye cb ob) [EyeCombined, EyeLeft, EyeRight])
       \<and> (\<forall>eye. binaryReady eye cb ob \<longrightarrow>
            (let k = min (stored (matrixOf eye cb)) (stored (matrixOf eye ob));
                 ic = take k (fst (perms eye));
                 io = take k (snd (perms eye))
             in length ic = k \<and> length io = k \<and> distinct ic \<and> distinct io \<and>
                set ic \<subseteq> {..<stored (matrixOf eye cb)} \<and>
                set io \<subseteq> {..<stored (matrixOf eye ob)}))"
proof
  have one: "\<And>eye w'. fits (calibrateBinaryEye trainer perms cb ob eye w') =
      fits w' @ (if binaryReady eye cb ob then [balancedFit perms cb ob eye] else [])"
    using assms by (intro fits_calibrateBinaryEye) simp
  show "fits (calibrateBinary trainer perms cb ob w) =
           fits w @ map (balancedFit perms cb ob)
                      (filter (\<lambda>eye. binaryReady eye cb ob) [EyeCombined, EyeLeft, EyeRight])"
    by (simp add: calibrateBinary_def one)
next
  show "\<forall>eye. binaryReady eye cb ob \<longrightarrow>
            (let k = min (stored (matrixOf eye cb)) (stored (matrixOf eye ob));
                 ic = take k (fst (perms eye));
                 io = take k (snd (perms eye))
             in length ic = k \<and> length io = k \<and> distinct ic \<and> distinct io \<and>
                set ic \<subseteq> {..<stored (matrixOf eye cb)} \<and>
                set io \<subseteq> {..<stored (matrixOf eye ob)})"
  proof (intro allI impI)
    fix eye assume r: "binaryReady eye cb ob"
    define k where "k = min (stored (matrixOf eye cb)) (stored (matrixOf eye ob))"
    have pc: "mset (fst (perms eye)) = mset [0..<stored (matrixOf eye cb)]"
      and po: "mset (snd (perms eye)) = mset [0..<stored (matrixOf eye ob)]"
      using assms r by simp_all
    have kc: "k \<le> stored (matrixOf eye cb)" and ko: "k \<le> stored (matrixOf eye ob)"
      by (simp_all add: k_def)
    show "let k = min (stored (matrixOf eye cb)) (stored (matrixOf eye ob));
              ic = take k (fst (perms eye));
              io = take k (snd (perms eye))
          in length ic = k \<and> length io = k \<and> distinct ic \<and> distinct io \<and>
             set ic \<subseteq> {..<stored (matrixOf eye cb)} \<and>
             set io \<subseteq> {..<stored (matrixOf eye ob)}"
      unfolding Let_def k_def [symmetric]
      using perm_take [OF pc kc] perm_take [OF po ko] by simp
  qed
qed

theorem calibrateBinary_balanced_witness:
  "(let cb = makeBuffer\<lparr>combined := Some ([1, 2, 3], [4, 5, 6], [7, 8, 9]),
                        right := Some ([1], [1], [1])\<rparr>;
        ob = makeBuffer\<lparr>combined := Some ([10, 20], [30, 40], [50, 60]),
                        right := Some ([], [], [])\<rparr>;
        perms = (\<lambda>eye. if eye = EyeCombined then ([2, 0, 1], [1, 0]) else ([], []))
    in binaryReady EyeCombined cb ob \<and> \<not> binaryReady EyeLeft cb ob \<and>
       \<not> binaryReady EyeRight cb ob \<and>
       fits (calibrateBinary (\<lambda>call v. Num 0) perms cb ob emptyWorld) =
         [BinaryFit (ModelKey Binary EyeCombined 1)
            [(3, 6, 9), (1, 4, 7), (20, 40, 60), (10, 30, 50)] [0, 0, 1, 1]])"
proof -
  define cb where "cb = makeBuffer\<lparr>combined := Some ([1, 2, 3], [4, 5, 6], [7, 8, 9]),
                        right := Some ([1::real], [1::real], [1::real])\<rparr>"
  define ob where "ob = makeBuffer\<lparr>combined := Some ([10, 20], [30, 40], [50, 60]),
                        right := Some ([]::real list, []::real list, []::real list)\<rparr>"
  define perms :: "Eye \<Rightarrow> nat list \<times> nat list"
    where "perms = (\<lambda>eye. if eye = EyeCombined then ([2, 0, 1], [1, 0]) else ([], []))"
  have r: "binaryReady EyeCombined cb ob" "\<not> binaryReady EyeLeft cb ob"
    "\<not> binaryReady EyeRight cb ob"
    by (simp_all add: binaryReady_def cb_def ob_def makeBuffer_def matrixOf_def stored_def
        samples_def)
  have u3: "[0..<3] = [0, 1, 2]" and u2: "[0..<2] = [0, 1]"
    by (simp_all add: upt_rec)
  have p: "\<forall>eye. binaryReady eye cb ob \<longrightarrow>
             mset (fst (perms eye)) = mset [0..<stored (matrixOf eye cb)] \<and>
             mset (snd (perms eye)) = mset [0..<stored (matrixOf eye ob)]"
    unfolding Eye_all using r
    by (simp add: perms_def cb_def ob_def makeBuffer_def matrixOf_def stored_def samples_def u3 u2)
  have "fits (calibrateBinary (\<lambda>call v. Num 0) perms cb ob emptyWorld) =
         [BinaryFit (ModelKey Binary EyeCombined 1)
            [(3, 6, 9), (1, 4, 7), (20, 40, 60), (10, 30, 50)] [0, 0, 1, 1]]"
    using calibrateBinary_balanced [OF p, of "\<lambda>call v. Num 0" emptyWorld] r
    by (simp add: emptyWorld_def balancedFit_def Let_def perms_def cb_def ob_def makeBuffer_def
        matrixOf_def orEmpty_def samples_def matToFrames_def binKey_def withVersion_def
        VERSION_def u3 u2 numeral_2_eq_2)
  then show ?thesis
    using r unfolding cb_def ob_def perms_def Let_def by simp
qed


subsection \<open>Blink stage\<close>




subsection \<open>Ordering signs\<close>

lemma signLoop_signList:
  "k \<le> length ex \<Longrightarrow> signLoop ex k rising arr = signList rising (drop k ex) arr"
proof (induction ex k rising arr rule: signLoop.induct)
  case (1 extrema k rising orderingSign)
  show ?case
  proof (cases "int k < int (length extrema) - 1")
    case True
    then have k2: "k + 1 < length extrema" by simp
    then have d: "drop k extrema = extrema ! k # extrema ! (k + 1) # drop (k + 2) extrema"
      by (metis Cons_nth_drop_Suc Suc_eq_plus1 add_2_eq_Suc' add_lessD1)
    have d1: "drop (k + 1) extrema = extrema ! (k + 1) # drop (k + 2) extrema"
      using k2 by (metis Cons_nth_drop_Suc Suc_eq_plus1 add_2_eq_Suc')
    show ?thesis
      using True k2 "1.IH" [OF True refl refl refl] d d1
      by (subst signLoop.simps) (simp add: Let_def)
  next
    case False
    then have "length (drop k extrema) \<le> 1" by simp
    then have "signList rising (drop k extrema) orderingSign = orderingSign"
      by (cases "drop k extrema"; cases "tl (drop k extrema)") auto
    then show ?thesis using False by (subst signLoop.simps) simp
  qed
qed



lemma length_js_set: "i < length xs \<Longrightarrow> length (js_set xs i v) = length xs"
  by (simp add: js_set_def)

lemma nth_js_set:
  "i < length xs \<Longrightarrow> j < length xs \<Longrightarrow> js_set xs i v ! j = (if j = i then Some v else xs ! j)"
  by (simp add: js_set_def)

lemma fillSign_upt:
  "e \<le> length arr \<Longrightarrow>
   length (fold (\<lambda>i a. js_set a i sg) [s..<e] arr) = length arr \<and>
   (\<forall>j < length arr. fold (\<lambda>i a. js_set a i sg) [s..<e] arr ! j =
       (if s \<le> j \<and> j < e then Some sg else arr ! j))"
proof (induction e)
  case 0
  then show ?case by simp
next
  case (Suc e)
  define r where "r = fold (\<lambda>i a. js_set a i sg) [s..<e] arr"
  have e: "e < length arr" using Suc.prems by simp
  have IH: "length r = length arr"
    "\<And>j. j < length arr \<Longrightarrow> r ! j = (if s \<le> j \<and> j < e then Some sg else arr ! j)"
    using Suc.IH e by (simp_all add: r_def)
  show ?case
  proof (cases "s \<le> e")
    case True
    then have f: "fold (\<lambda>i a. js_set a i sg) [s..<Suc e] arr = js_set r e sg"
      by (simp add: r_def)
    have "length (js_set r e sg) = length arr"
      using e IH(1) by (simp add: length_js_set)
    moreover have "\<And>j. j < length arr \<Longrightarrow>
        js_set r e sg ! j = (if s \<le> j \<and> j < Suc e then Some sg else arr ! j)"
    proof -
      fix j assume j: "j < length arr"
      have "js_set r e sg ! j = (if j = e then Some sg else r ! j)"
        using e j IH(1) by (simp add: nth_js_set)
      also have "\<dots> = (if s \<le> j \<and> j < Suc e then Some sg else arr ! j)"
        using IH(2) [OF j] True by (cases "j = e") (simp_all add: less_Suc_eq)
      finally show "js_set r e sg ! j = (if s \<le> j \<and> j < Suc e then Some sg else arr ! j)" .
    qed
    ultimately show ?thesis unfolding f by blast
  next
    case False
    then have "[s..<Suc e] = []" by simp
    moreover have "\<And>j. (s \<le> j \<and> j < Suc e) = False" using False by arith
    ultimately show ?thesis by (simp only: fold.simps id_apply if_False simp_thms)
  qed
qed

lemma length_fillSign: "e \<le> length arr \<Longrightarrow> length (fillSign sg s e arr) = length arr"
  unfolding fillSign_def by (rule fillSign_upt [THEN conjunct1])

lemma nth_fillSign:
  "e \<le> length arr \<Longrightarrow> j < length arr \<Longrightarrow>
   fillSign sg s e arr ! j = (if s \<le> j \<and> j < e then Some sg else arr ! j)"
  unfolding fillSign_def using fillSign_upt [of e arr sg s] by simp

lemma sorted_le_last: "sorted (e # rest) \<Longrightarrow> e \<le> last (e # rest)"
  by (cases "rest = []") (auto dest: last_in_set)

lemma intervalSign_outside:
  "sorted ex \<Longrightarrow> j < hd ex \<or> last ex \<le> j \<Longrightarrow> intervalSign ps vs ex j = 0"
proof (induction ps vs ex j rule: intervalSign.induct)
  case (1 ps vs s e rest j)
  have el: "e \<le> last (e # rest)" using "1.prems"(1) by (intro sorted_le_last) simp
  have se: "s \<le> e" using "1.prems"(1) by simp
  have out: "\<not> (s \<le> j \<and> j < e)" using "1.prems"(2) el se by auto
  have "j < hd (e # rest) \<or> last (e # rest) \<le> j" using "1.prems"(2) se by auto
  then have "intervalSign ps vs (e # rest) j = 0"
    using "1.IH" out "1.prems"(1) by simp
  then show ?case using out by simp
qed simp_all

lemma signList_spec:
  assumes "sorted ex" "\<forall>x \<in> set ex. x \<le> length arr" "alternating vs (butlast ex)"
    "set ex \<subseteq> set ps \<union> set vs" "2 \<le> length ex \<longrightarrow> rising = (hd ex \<in> set vs)"
  shows "length (signList rising ex arr) = length arr \<and>
         (\<forall>j < length arr. signList rising ex arr ! j =
            (if ex \<noteq> [] \<and> hd ex \<le> j \<and> j < last ex then Some (intervalSign ps vs ex j) else arr ! j))"
  using assms
proof (induction rising ex arr rule: signList.induct)
  case (1 rising s e rest arr)
  define arr' where "arr' = fillSign (if rising then 1 else - 1) s e arr"
  have e_le: "e \<le> length arr" and s_le: "s \<le> e" using "1.prems"(1,2) by simp_all
  have len': "length arr' = length arr" by (simp add: arr'_def length_fillSign e_le)
  have nth': "\<And>j. j < length arr \<Longrightarrow>
      arr' ! j = (if s \<le> j \<and> j < e then Some (if rising then 1 else - 1) else arr ! j)"
    by (simp add: arr'_def nth_fillSign e_le)
  have p1: "sorted (e # rest)" using "1.prems"(1) by simp
  have p2: "\<forall>x \<in> set (e # rest). x \<le> length arr'" using "1.prems"(2) len' by simp
  have r: "rising = (s \<in> set vs)" using "1.prems"(5) by simp
  have p3: "alternating vs (butlast (e # rest))"
    using "1.prems"(3) by (cases "rest = []") simp_all
  have p4: "set (e # rest) \<subseteq> set ps \<union> set vs" using "1.prems"(4) by simp
  have p5: "2 \<le> length (e # rest) \<longrightarrow> (\<not> rising) = (hd (e # rest) \<in> set vs)"
    using "1.prems"(3) r by (cases "rest = []") auto
  have IH: "length (signList (\<not> rising) (e # rest) arr') = length arr'"
    "\<And>j. j < length arr' \<Longrightarrow> signList (\<not> rising) (e # rest) arr' ! j =
            (if e \<le> j \<and> j < last (e # rest)
             then Some (intervalSign ps vs (e # rest) j) else arr' ! j)"
    using "1.IH" [OF p1 p2 [unfolded arr'_def] p3 p4 p5] unfolding arr'_def by simp_all
  have e_last: "e \<le> last (e # rest)" using p1 by (rule sorted_le_last)
  have sg: "(if rising then 1 else - 1) = (if s \<in> set vs then 1 else if s \<in> set ps then - 1 else (0::int))"
    using "1.prems"(4) r by auto
  have step: "signList rising (s # e # rest) arr = signList (\<not> rising) (e # rest) arr'"
    by (simp add: arr'_def)
  have last2: "last (s # e # rest) = last (e # rest)" by simp
  show ?case
  proof (intro conjI allI impI)
    show "length (signList rising (s # e # rest) arr) = length arr"
      using IH(1) len' step by simp
  next
    fix j assume j: "j < length arr"
    have a: "signList rising (s # e # rest) arr ! j =
        (if e \<le> j \<and> j < last (e # rest)
             then Some (intervalSign ps vs (e # rest) j) else arr' ! j)"
      using IH(2) [of j] j len' step by simp
    show "signList rising (s # e # rest) arr ! j =
       (if s # e # rest \<noteq> [] \<and> hd (s # e # rest) \<le> j \<and> j < last (s # e # rest)
        then Some (intervalSign ps vs (s # e # rest) j) else arr ! j)"
    proof (cases "s \<le> j \<and> j < e")
      case True
      then have "signList rising (s # e # rest) arr ! j = Some (if rising then 1 else - 1)"
        using a nth' [OF j] by simp
      moreover have "intervalSign ps vs (s # e # rest) j = (if rising then 1 else - 1)"
        using True sg by simp
      moreover have "j < last (e # rest)" using True e_last by simp
      ultimately show ?thesis using True last2 by simp
    next
      case False
      then have b: "intervalSign ps vs (s # e # rest) j = intervalSign ps vs (e # rest) j"
        by auto
      have c: "arr' ! j = arr ! j" using nth' [OF j] False by simp
      have d: "(s \<le> j \<and> j < last (e # rest)) = (e \<le> j \<and> j < last (e # rest))"
        using False s_le by auto
      show ?thesis unfolding a b c last2 using d by simp
    qed
  qed
qed auto

lemma sort_append_commute: "sort (xs @ ys) = sort (ys @ (xs::nat list))"
  by (rule properties_for_sort) simp_all

text \<open>
  Claim C5, as amended. For peaks and valleys with every index below \<open>N\<close> such that the
  extrema that start an interval (the merged, sorted extrema without the last one)
  alternate between valley and peak, the ordering-sign array has length \<open>N - 1\<close>, has no
  hole, and holds +1 at every position of an interval that starts at a valley, -1 at every
  position of an interval that starts at a peak, and 0 elsewhere. The last extremum starts
  no interval and may be of either kind: valley 0, peaks 5 and 20 are covered.
\<close>

theorem orderingSigns_alternating:
  assumes "0 < N" "\<forall>x \<in> set ps \<union> set vs. x < N"
    "alternating vs (butlast (sort (ps @ vs)))"
  shows "length (orderingSigns N ps vs) = N - 1 \<and>
         orderingSigns N ps vs = map Some (orderingSigns_spec N ps vs)"
proof -
  define ex where "ex = sort (vs @ ps)"
  define arr :: "int option list" where "arr = replicate (N - 1) (Some 0)"
  have ex2: "sort (ps @ vs) = ex" by (simp add: ex_def sort_append_commute)
  have s: "sorted ex" by (simp add: ex_def)
  have r: "\<forall>x \<in> set ex. x \<le> length arr"
  proof
    fix x assume "x \<in> set ex"
    then have "x < N" using assms(2) by (auto simp: ex_def)
    then show "x \<le> length arr" by (simp add: arr_def)
  qed
  have a: "alternating vs (butlast ex)" using assms(3) ex2 by simp
  have sub: "set ex \<subseteq> set ps \<union> set vs" by (auto simp: ex_def)
  have arr_eq: "replicate (N - Suc 0) (Some 0) = arr" by (simp add: arr_def)
  have code: "orderingSigns N ps vs = signList (ex \<noteq> [] \<and> hd ex \<in> set vs) ex arr"
  proof (cases "length ex \<ge> 2")
    case True
    then have "ex \<noteq> []" by auto
    then show ?thesis
      using True by (simp add: orderingSigns_def Let_def ex_def [symmetric] arr_eq
          signLoop_signList hd_conv_nth)
  next
    case False
    then have "signList (ex \<noteq> [] \<and> hd ex \<in> set vs) ex arr = arr"
      by (cases ex; cases "tl ex") auto
    then show ?thesis
      using False by (simp add: orderingSigns_def Let_def ex_def [symmetric] arr_eq)
  qed
  have sp: "length (signList (ex \<noteq> [] \<and> hd ex \<in> set vs) ex arr) = length arr"
    "\<And>j. j < length arr \<Longrightarrow> signList (ex \<noteq> [] \<and> hd ex \<in> set vs) ex arr ! j =
            (if ex \<noteq> [] \<and> hd ex \<le> j \<and> j < last ex then Some (intervalSign ps vs ex j) else arr ! j)"
  proof -
    have h: "2 \<le> length ex \<longrightarrow> (ex \<noteq> [] \<and> hd ex \<in> set vs) = (hd ex \<in> set vs)"
      by auto
    note t = signList_spec [OF s r a sub h]
    show "length (signList (ex \<noteq> [] \<and> hd ex \<in> set vs) ex arr) = length arr"
      using t by (rule conjunct1)
    show "\<And>j. j < length arr \<Longrightarrow> signList (ex \<noteq> [] \<and> hd ex \<in> set vs) ex arr ! j =
            (if ex \<noteq> [] \<and> hd ex \<le> j \<and> j < last ex then Some (intervalSign ps vs ex j) else arr ! j)"
      using t [THEN conjunct2] by (simp only:)
  qed
  have "orderingSigns N ps vs = map Some (orderingSigns_spec N ps vs)"
  proof (rule nth_equalityI)
    show "length (orderingSigns N ps vs) = length (map Some (orderingSigns_spec N ps vs))"
      using sp(1) code by (simp add: orderingSigns_spec_def arr_def)
  next
    fix j assume "j < length (orderingSigns N ps vs)"
    then have j: "j < length arr" using sp(1) code by simp
    then have j': "j < N - 1" by (simp add: arr_def)
    have "orderingSigns N ps vs ! j =
       (if ex \<noteq> [] \<and> hd ex \<le> j \<and> j < last ex then Some (intervalSign ps vs ex j) else arr ! j)"
      using sp(2) [OF j] code by simp
    also have "\<dots> = Some (intervalSign ps vs ex j)"
    proof (cases "ex \<noteq> [] \<and> hd ex \<le> j \<and> j < last ex")
      case True
      then show ?thesis by simp
    next
      case False
      have "intervalSign ps vs ex j = 0"
      proof (cases "ex = []")
        case True
        then show ?thesis by simp
      next
        case nonempty: False
        then have "j < hd ex \<or> last ex \<le> j" using False by auto
        then show ?thesis using s by (rule intervalSign_outside [rotated])
      qed
      then show ?thesis using False j' by (simp add: arr_def)
    qed
    finally show "orderingSigns N ps vs ! j = map Some (orderingSigns_spec N ps vs) ! j"
      using j' by (simp add: orderingSigns_spec_def ex2)
  qed
  moreover have "length (orderingSigns N ps vs) = N - 1"
    using sp(1) code by (simp add: arr_def)
  ultimately show ?thesis by simp
qed

theorem orderingSigns_alternating_witness:
  "0 < (80::nat) \<and> (40::nat) < 80 \<and> (10::nat) < 80 \<and> (70::nat) < 80 \<and>
   alternating [10, 70] (butlast (sort ([40] @ [10, 70]))) \<and>
   length (orderingSigns 80 [40] [10, 70]) = 79 \<and>
   orderingSigns 80 [40] [10, 70] =
     replicate 10 (Some 0) @ replicate 30 (Some 1) @ replicate 30 (Some (- 1)) @
     replicate 9 (Some 0) \<and>
   0 < (21::nat) \<and> (5::nat) < 21 \<and> (20::nat) < 21 \<and> (0::nat) < 21 \<and>
   alternating [0] (butlast (sort ([5, 20] @ [0]))) \<and>
   \<not> alternating [0] (sort ([5, 20] @ [0])) \<and>
   length (orderingSigns 21 [5, 20] [0]) = 20 \<and>
   orderingSigns 21 [5, 20] [0] = replicate 5 (Some 1) @ replicate 15 (Some (- 1))"
proof -
  have h1: "0 < (80::nat)" by simp
  have h2: "\<forall>x \<in> set [40] \<union> set [10, 70]. x < (80::nat)" by simp
  have h3: "alternating [10, 70] (butlast (sort ([40] @ [10, 70])))" by code_simp
  have v: "map Some (orderingSigns_spec 80 [40] [10, 70]) =
     replicate 10 (Some 0) @ replicate 30 (Some 1) @ replicate 30 (Some (- 1)) @
     replicate 9 (Some 0)"
    by code_simp
  have g1: "0 < (21::nat)" by simp
  have g2: "\<forall>x \<in> set [5, 20] \<union> set [0]. x < (21::nat)" by simp
  have g3: "alternating [0] (butlast (sort ([5, 20] @ [0])))" by code_simp
  have g4: "\<not> alternating [0] (sort ([5, 20] @ [0]))" by code_simp
  have u: "map Some (orderingSigns_spec 21 [5, 20] [0]) =
     replicate 5 (Some 1) @ replicate 15 (Some (- 1))"
    by code_simp
  show ?thesis
    using orderingSigns_alternating [OF h1 h2 h3] orderingSigns_alternating [OF g1 g2 g3]
      h3 g3 g4 v u
    by simp
qed

text \<open>
  Claim C5 as stated, for every pair of index lists, fails: the loop flips the sign from
  one interval to the next and does not look at the extremum that starts the interval.
  With valleys 0, 3 and peaks 1, 2 the interval from 2 to 3 starts at a peak and gets +1.
\<close>

theorem orderingSigns_counterexample:
  "orderingSigns 4 [1, 2] [0, 3] \<noteq> map Some (orderingSigns_spec 4 [1, 2] [0, 3])"
  by code_simp

subsection \<open>Training loss\<close>

lemma anchor_sum:
  assumes "set ps \<inter> set vs = {}"
  shows "(\<Sum>(a, b)\<leftarrow>zip (map (\<lambda>i. if i \<in> set ps then 1 else 0) (ps @ vs))
                          (map (\<lambda>i. y ! i) (ps @ vs)). (a - b) ^ 2) =
         (\<Sum>i\<leftarrow>ps. (y ! i - 1) ^ 2) + (\<Sum>i\<leftarrow>vs. (y ! i - 0) ^ 2 :: real)"
proof -
  have z: "zip (map (\<lambda>i. if i \<in> set ps then 1 else (0::real)) (ps @ vs)) (map (\<lambda>i. y ! i) (ps @ vs))
         = map (\<lambda>i. (if i \<in> set ps then 1 else 0, y ! i)) (ps @ vs)"
    by (simp add: zip_map_map zip_same_conv_map del: map_append)
  have p: "(\<Sum>i\<leftarrow>ps. ((if i \<in> set ps then 1 else 0) - y ! i) ^ 2) = (\<Sum>i\<leftarrow>ps. (y ! i - 1) ^ 2)"
    by (rule arg_cong [where f = sum_list], rule map_cong) (simp_all add: power2_commute)
  have v: "(\<Sum>i\<leftarrow>vs. ((if i \<in> set ps then 1 else 0) - y ! i) ^ 2) = (\<Sum>i\<leftarrow>vs. (y ! i - 0) ^ 2)"
    using assms by (intro arg_cong [where f = sum_list] map_cong) auto
  show ?thesis
    unfolding z by (simp add: comp_def p v)
qed

lemma ordering_terms:
  assumes "length sign = length y - 1"
  shows "map (\<lambda>(sg, d). tf_relu (- (sg * d)))
           (zip sign (map (\<lambda>(a, b). a - b) (zip (drop 1 y) (take (length y - 1) y)))) =
         map (\<lambda>i. max 0 (- (sign ! i) * (y ! (i + 1) - y ! i))) [0..<length y - 1]"
  using assms by (intro nth_equalityI) (simp_all add: tf_relu_def)

text \<open>
  Claim C4, as amended. For peaks and valleys with no index in common (not both empty,
  every index in range), predictions of length \<open>N \<ge> 2\<close> and \<open>N - 1\<close> ordering signs,
  the loss is the anchor term plus one half of the ordering term. A pair whose sign is 0
  adds \<open>max 0 0 = 0\<close> to the ordering term.
\<close>

theorem makeCompositeLoss_disjoint:
  assumes "set ps \<inter> set vs = {}" "ps @ vs \<noteq> []" "\<forall>i \<in> set ps \<union> set vs. i < length pred"
    "2 \<le> length pred" "length sign = length pred - 1"
  shows "makeCompositeLoss sign ps vs pred = anchor_spec pred ps vs + (1 / 2) * ordering_spec sign pred"
  using anchor_sum [OF assms(1), of pred] ordering_terms [OF assms(5)] assms(5)
  by (simp add: makeCompositeLoss_def Let_def tf_meanSquaredError_def tf_mean_def tf_gather_def
      anchor_spec_def ordering_spec_def)

theorem makeCompositeLoss_disjoint_witness:
  "set [1::nat] \<inter> set [0, 2] = {} \<and> (1::nat) < 3 \<and> (0::nat) < 3 \<and> (2::nat) < 3 \<and>
   makeCompositeLoss [1, - 1] [1] [0, 2] [1 / 2, 1 / 4, 3 / 4] = 31 / 48 \<and>
   anchor_spec [1 / 2, 1 / 4, 3 / 4] [1] [0, 2] = 11 / 24 \<and>
   ordering_spec [1, - 1] [1 / 2, 1 / 4, 3 / 4] = 3 / 8"
proof -
  have a: "anchor_spec [1 / 2, 1 / 4, 3 / 4] [1] [0, 2] = 11 / 24"
    by (simp add: anchor_spec_def power2_eq_square)
  have u: "[0..<2] = [0, 1]" by (simp add: upt_rec)
  have o: "ordering_spec [1, - 1] [1 / 2, 1 / 4, 3 / 4] = 3 / 8"
    by (simp add: ordering_spec_def u)
  show ?thesis
    using makeCompositeLoss_disjoint [of "[1]" "[0, 2]" "[1 / 2, 1 / 4, 3 / 4]" "[1, - 1]"] a o
    by simp
qed

text \<open>
  Claim C4 as stated, for every pair of peak and valley sets, fails when an index is in
  both: the target is computed by \<^verbatim>\<open>peaks.has(i)\<close>, so the index counts twice with
  target 1 and never with target 0.
\<close>

theorem makeCompositeLoss_counterexample:
  "makeCompositeLoss [0] [0] [0] [0, 0] \<noteq> anchor_spec [0, 0] [0] [0] + (1 / 2) * ordering_spec [0] [0, 0]"
  by (simp add: makeCompositeLoss_def Let_def tf_meanSquaredError_def tf_mean_def tf_gather_def
      anchor_spec_def ordering_spec_def tf_relu_def)

subsection \<open>The hysteresis scan\<close>

lemma js_slice_segment:
  assumes "s \<le> e" "e < length sm"
  shows "js_slice sm (int s) (int e + 1) = map (\<lambda>i. sm ! i) [s..<Suc e]"
proof -
  have k: "min (int s) (int (length sm)) = int s"
    and f: "min (int e + 1) (int (length sm)) = int e + 1"
    and d: "nat (int e + 1 - int s) = Suc e - s"
    using assms by simp_all
  have "js_slice sm (int s) (int e + 1) = take (Suc e - s) (drop s sm)"
    unfolding js_slice_def Let_def by (simp add: k f d)
  also have "\<dots> = map (\<lambda>i. sm ! i) [s..<Suc e]"
    using assms by (intro nth_equalityI) (simp_all del: upt_Suc)
  finally show ?thesis .
qed

lemma segment_indices:
  assumes "s \<le> e"
  shows "map (\<lambda>k. int s + int k) [0..<nat (int e - int s + 1)] = map int [s..<Suc e]"
proof -
  have "nat (int e - int s + 1) = Suc e - s" using assms by simp
  then show ?thesis using assms by (intro nth_equalityI) (simp_all del: upt_Suc)
qed

lemma math_min_Min: "xs \<noteq> [] \<Longrightarrow> math_min xs = Some (Min (set xs))"
proof (induction xs)
  case Nil
  then show ?case by simp
next
  case (Cons x xs)
  then show ?case by (cases "xs = []") (simp_all add: min.commute)
qed

lemma math_max_Max: "xs \<noteq> [] \<Longrightarrow> math_max xs = Some (Max (set xs))"
proof (induction xs)
  case Nil
  then show ?case by simp
next
  case (Cons x xs)
  then show ?case by (cases "xs = []") (simp_all add: max.commute)
qed

lemma plateau_filter:
  assumes "e < length sm"
  shows "filter (\<lambda>i. strict_eq (js_nth sm i) (Some m)) (map int [s..<Suc e]) =
         map int (filter (\<lambda>i. sm ! i = m) [s..<Suc e])"
proof -
  have "\<And>i. i \<in> set [s..<Suc e] \<Longrightarrow>
          strict_eq (js_nth sm (int i)) (Some m) = (sm ! i = m)"
    using assms by (auto simp: js_nth_def)
  then have "filter (\<lambda>x. strict_eq (js_nth sm (int x)) (Some m)) [s..<Suc e] =
             filter (\<lambda>i. sm ! i = m) [s..<Suc e]"
    by (intro filter_cong refl)
  then show ?thesis by (simp add: filter_map comp_def del: upt_Suc)
qed

lemma js_nth_middle:
  assumes "p \<noteq> []"
  shows "js_nth (map int p) (int (length p div 2)) = Some (int (p ! (length p div 2)))"
proof -
  have "length p div 2 < length p" using assms by simp
  then show ?thesis by (simp add: js_nth_def)
qed

text \<open>The plateau of a segment and its middle entry.\<close>

lemma plateau_nonempty:
  assumes "s \<le> e" "m \<in> (\<lambda>i. sm ! i) ` {s..e}"
  shows "filter (\<lambda>i. sm ! i = m) [s..<Suc e] \<noteq> []"
proof -
  obtain i where "i \<in> {s..e}" "sm ! i = m" using assms(2) by auto
  then have "i \<in> set (filter (\<lambda>i. sm ! i = m) [s..<Suc e])" by (simp del: upt_Suc)
  then show ?thesis by (metis empty_iff empty_set)
qed

lemma plateau_middle_in_segment:
  assumes "p = filter P [s..<Suc e]" "p \<noteq> []"
  shows "s \<le> p ! (length p div 2) \<and> p ! (length p div 2) \<le> e"
proof -
  have "length p div 2 < length p" using assms(2) by simp
  then have "p ! (length p div 2) \<in> set p" by (rule nth_mem)
  then show ?thesis using assms(1) by (auto simp del: upt_Suc)
qed

lemma finishSegment_CLOSED:
  assumes "segStart st = int s" "s \<le> e" "e < length sm"
  defines "p \<equiv> filter (\<lambda>i. sm ! i = Min ((\<lambda>i. sm ! i) ` {s..e})) [s..<Suc e]"
  shows "finishSegment sm (int e) CLOSED st =
           st\<lparr>valleysAcc := valleysAcc st @ [Some (int (p ! (length p div 2)))]\<rparr>"
    and "p \<noteq> []"
proof -
  have img: "set (map (\<lambda>i. sm ! i) [s..<Suc e]) = (\<lambda>i. sm ! i) ` {s..e}"
    by (auto simp: image_iff simp del: upt_Suc)
  have ne: "map (\<lambda>i. sm ! i) [s..<Suc e] \<noteq> []" using assms(2) by (simp del: upt_Suc)
  have mm: "math_min (map (\<lambda>i. sm ! i) [s..<Suc e]) = Some (Min ((\<lambda>i. sm ! i) ` {s..e}))"
    using math_min_Min [OF ne] img by simp
  have "Min ((\<lambda>i. sm ! i) ` {s..e}) \<in> (\<lambda>i. sm ! i) ` {s..e}"
    using assms(2) by (intro Min_in) simp_all
  then show pne: "p \<noteq> []" unfolding p_def using assms(2) by (intro plateau_nonempty)
  have g: "\<not> int e < int s" using assms(2) by simp
  show "finishSegment sm (int e) CLOSED st =
           st\<lparr>valleysAcc := valleysAcc st @ [Some (int (p ! (length p div 2)))]\<rparr>"
    unfolding finishSegment_def assms(1) Let_def
    using g js_nth_middle [OF pne]
    by (simp add: segment_indices [OF assms(2)] js_slice_segment [OF assms(2,3)] mm
        plateau_filter [OF assms(3)] p_def [symmetric] del: upt_Suc)
qed

lemma finishSegment_OPEN:
  assumes "segStart st = int s" "s \<le> e" "e < length sm"
  defines "p \<equiv> filter (\<lambda>i. sm ! i = Max ((\<lambda>i. sm ! i) ` {s..e})) [s..<Suc e]"
  shows "finishSegment sm (int e) OPEN st =
           st\<lparr>peaksAcc := peaksAcc st @ [Some (int (p ! (length p div 2)))]\<rparr>"
    and "p \<noteq> []"
proof -
  have img: "set (map (\<lambda>i. sm ! i) [s..<Suc e]) = (\<lambda>i. sm ! i) ` {s..e}"
    by (auto simp: image_iff simp del: upt_Suc)
  have ne: "map (\<lambda>i. sm ! i) [s..<Suc e] \<noteq> []" using assms(2) by (simp del: upt_Suc)
  have mm: "math_max (map (\<lambda>i. sm ! i) [s..<Suc e]) = Some (Max ((\<lambda>i. sm ! i) ` {s..e}))"
    using math_max_Max [OF ne] img by simp
  have "Max ((\<lambda>i. sm ! i) ` {s..e}) \<in> (\<lambda>i. sm ! i) ` {s..e}"
    using assms(2) by (intro Max_in) simp_all
  then show pne: "p \<noteq> []" unfolding p_def using assms(2) by (intro plateau_nonempty)
  have g: "\<not> int e < int s" using assms(2) by simp
  show "finishSegment sm (int e) OPEN st =
           st\<lparr>peaksAcc := peaksAcc st @ [Some (int (p ! (length p div 2)))]\<rparr>"
    unfolding finishSegment_def assms(1) Let_def
    using g js_nth_middle [OF pne]
    by (simp add: segment_indices [OF assms(2)] js_slice_segment [OF assms(2,3)] mm
        plateau_filter [OF assms(3)] p_def [symmetric] del: upt_Suc)
qed

subsection \<open>One step of the scan, case by case\<close>

lemma scanStep_CLOSED_fire:
  assumes "state st = CLOSED" "sm ! k \<ge> openTh" "overRun st = 2"
  shows "scanStep sm openTh closeTh k st =
           (finishSegment sm (int k - 3) CLOSED (st\<lparr>overRun := 3, underRun := 0\<rparr>))
             \<lparr>state := OPEN, segStart := int k - 2, overRun := 0\<rparr>"
  using assms by (simp add: scanStep_def Let_def minRun_def)

lemma scanStep_CLOSED_count:
  assumes "state st = CLOSED" "sm ! k \<ge> openTh" "overRun st < 2"
  shows "scanStep sm openTh closeTh k st = st\<lparr>overRun := overRun st + 1, underRun := 0\<rparr>"
  using assms by (simp add: scanStep_def Let_def minRun_def)

lemma scanStep_CLOSED_reset:
  assumes "state st = CLOSED" "\<not> sm ! k \<ge> openTh"
  shows "scanStep sm openTh closeTh k st = st\<lparr>overRun := 0\<rparr>"
  using assms by (simp add: scanStep_def Let_def minRun_def)

lemma scanStep_OPEN_fire:
  assumes "state st = OPEN" "sm ! k \<le> closeTh" "underRun st = 2"
  shows "scanStep sm openTh closeTh k st =
           (finishSegment sm (int k - 3) OPEN (st\<lparr>underRun := 3, overRun := 0\<rparr>))
             \<lparr>state := CLOSED, segStart := int k - 2, underRun := 0\<rparr>"
  using assms by (simp add: scanStep_def Let_def minRun_def)

lemma scanStep_OPEN_count:
  assumes "state st = OPEN" "sm ! k \<le> closeTh" "underRun st < 2"
  shows "scanStep sm openTh closeTh k st = st\<lparr>underRun := underRun st + 1, overRun := 0\<rparr>"
  using assms by (simp add: scanStep_def Let_def minRun_def)

lemma scanStep_OPEN_reset:
  assumes "state st = OPEN" "\<not> sm ! k \<le> closeTh"
  shows "scanStep sm openTh closeTh k st = st\<lparr>underRun := 0\<rparr>"
  using assms by (simp add: scanStep_def Let_def minRun_def)

lemma indexBelow_Some: "indexBelow n (Some (int j)) = (j < n)"
  by (simp add: indexBelow_def)

lemma scanInv_fire_bounds:
  assumes "closeTh < openTh" "scanInv sm openTh closeTh k st"
    "overRun st + underRun st = 2"
    "(state st = CLOSED \<and> sm ! k \<ge> openTh) \<or> (state st = OPEN \<and> sm ! k \<le> closeTh)"
  shows "3 \<le> k \<and> 0 \<le> segStart st \<and> segStart st \<le> int k - 3"
proof -
  have "k \<noteq> 0"
  proof
    assume "k = 0"
    then have "overRun st = 0 \<and> underRun st = 0" using assms(2) by (simp add: scanInv_def)
    then show False using assms(3) by simp
  qed
  then have "segStart st + int (overRun st) + int (underRun st) < int k"
    using assms(2) by (simp add: scanInv_def)
  moreover have "0 \<le> segStart st" using assms(2) by (simp add: scanInv_def)
  ultimately show ?thesis using assms(3) by linarith
qed

lemma scanInv_first_sample:
  assumes "closeTh < openTh" "scanInv sm openTh closeTh 0 st"
  shows "\<not> (state st = CLOSED \<and> sm ! 0 \<ge> openTh)" "\<not> (state st = OPEN \<and> sm ! 0 \<le> closeTh)"
proof -
  have m: "closeTh < (openTh + closeTh) / 2" "(openTh + closeTh) / 2 < openTh"
    using assms(1) by simp_all
  have e: "(state st = OPEN) = (sm ! 0 \<ge> (openTh + closeTh) / 2)"
    using assms(2) by (simp add: scanInv_def)
  show "\<not> (state st = CLOSED \<and> sm ! 0 \<ge> openTh)" using e m by auto
  show "\<not> (state st = OPEN \<and> sm ! 0 \<le> closeTh)" using e m by auto
qed

lemma scanInv_step:
  assumes th: "closeTh < openTh" and k: "k < length sm" and inv: "scanInv sm openTh closeTh k st"
  shows "scanInv sm openTh closeTh (Suc k) (scanStep sm openTh closeTh k st)"
    and "state (scanStep sm openTh closeTh k st) \<noteq> state st \<Longrightarrow>
         3 \<le> k \<and> 0 \<le> segStart st \<and> segStart st \<le> int k - 3"
proof -
  have s0: "0 \<le> segStart st" using inv by (simp add: scanInv_def)
  have cl: "state st = CLOSED \<Longrightarrow> underRun st = 0 \<and> overRun st < 3"
    and op: "state st = OPEN \<Longrightarrow> overRun st = 0 \<and> underRun st < 3"
    using inv by (simp_all add: scanInv_def minRun_def)
  have pk: "list_all (indexBelow (length sm)) (peaksAcc st)"
    and vl: "list_all (indexBelow (length sm)) (valleysAcc st)"
    using inv by (simp_all add: scanInv_def)
  have pos: "k \<noteq> 0 \<Longrightarrow> segStart st + int (overRun st) + int (underRun st) < int k"
    using inv by (simp add: scanInv_def)
  have zero: "k = 0 \<Longrightarrow> segStart st = 0 \<and> overRun st = 0 \<and> underRun st = 0"
    using inv by (simp add: scanInv_def)
  have first: "k = 0 \<Longrightarrow> \<not> (state st = CLOSED \<and> sm ! k \<ge> openTh)"
    "k = 0 \<Longrightarrow> \<not> (state st = OPEN \<and> sm ! k \<le> closeTh)"
    using scanInv_first_sample [OF th] inv by auto
  consider
      (cf) "state st = CLOSED" "sm ! k \<ge> openTh" "overRun st = 2"
    | (cc) "state st = CLOSED" "sm ! k \<ge> openTh" "overRun st < 2"
    | (cr) "state st = CLOSED" "\<not> sm ! k \<ge> openTh"
    | (of) "state st = OPEN" "sm ! k \<le> closeTh" "underRun st = 2"
    | (oc) "state st = OPEN" "sm ! k \<le> closeTh" "underRun st < 2"
    | (or) "state st = OPEN" "\<not> sm ! k \<le> closeTh"
    using cl op by (cases "state st") (auto simp: less_Suc_eq numeral_3_eq_3 numeral_2_eq_2)
  then have "scanInv sm openTh closeTh (Suc k) (scanStep sm openTh closeTh k st) \<and>
      (state (scanStep sm openTh closeTh k st) \<noteq> state st \<longrightarrow>
         3 \<le> k \<and> 0 \<le> segStart st \<and> segStart st \<le> int k - 3)"
  proof cases
    case cf
    have b: "3 \<le> k \<and> 0 \<le> segStart st \<and> segStart st \<le> int k - 3"
      using scanInv_fire_bounds [OF th inv] cf cl by simp
    define s where "s = nat (segStart st)"
    define e where "e = k - 3"
    define st1 where "st1 = st\<lparr>overRun := 3, underRun := 0\<rparr>"
    define p where "p = filter (\<lambda>i. sm ! i = Min ((\<lambda>i. sm ! i) ` {s..e})) [s..<Suc e]"
    have se1: "segStart st1 = int s" using b by (simp add: s_def st1_def)
    have se2: "s \<le> e" using b unfolding s_def e_def by linarith
    have se3: "e < length sm" using k unfolding e_def by linarith
    have se4: "int e = int k - 3" using b unfolding e_def by linarith
    note se = se1 se2 se3 se4
    have fin: "finishSegment sm (int k - 3) CLOSED st1 =
          st1\<lparr>valleysAcc := valleysAcc st1 @ [Some (int (p ! (length p div 2)))]\<rparr>"
      and pne: "p \<noteq> []"
      using finishSegment_CLOSED [OF se(1,2,3)] se(4) by (simp_all add: p_def)
    have pm: "p ! (length p div 2) < length sm"
      using plateau_middle_in_segment [OF p_def pne] se(3) by simp
    have res: "scanStep sm openTh closeTh k st =
        st1\<lparr>valleysAcc := valleysAcc st1 @ [Some (int (p ! (length p div 2)))],
            state := OPEN, segStart := int k - 2, overRun := 0\<rparr>"
      using scanStep_CLOSED_fire [OF cf, of closeTh] fin by (simp add: st1_def)
    show ?thesis
      unfolding res using b pk vl pm
      by (simp add: scanInv_def st1_def minRun_def indexBelow_Some)
  next
    case cc
    have k0: "k \<noteq> 0" using first(1) cc by (cases "k = 0") auto
    show ?thesis
      unfolding scanStep_CLOSED_count [OF cc] using cc cl pos [OF k0] s0 pk vl
      by (simp add: scanInv_def minRun_def)
  next
    case cr
    have "segStart st < int (Suc k)"
    proof (cases "k = 0")
      case True
      then show ?thesis using zero by simp
    next
      case False
      then show ?thesis using pos by simp
    qed
    then show ?thesis
      unfolding scanStep_CLOSED_reset [OF cr] using cr cl s0 pk vl
      by (simp add: scanInv_def minRun_def)
  next
    case of
    have b: "3 \<le> k \<and> 0 \<le> segStart st \<and> segStart st \<le> int k - 3"
      using scanInv_fire_bounds [OF th inv] of op by simp
    define s where "s = nat (segStart st)"
    define e where "e = k - 3"
    define st1 where "st1 = st\<lparr>underRun := 3, overRun := 0\<rparr>"
    define p where "p = filter (\<lambda>i. sm ! i = Max ((\<lambda>i. sm ! i) ` {s..e})) [s..<Suc e]"
    have se1: "segStart st1 = int s" using b by (simp add: s_def st1_def)
    have se2: "s \<le> e" using b unfolding s_def e_def by linarith
    have se3: "e < length sm" using k unfolding e_def by linarith
    have se4: "int e = int k - 3" using b unfolding e_def by linarith
    note se = se1 se2 se3 se4
    have fin: "finishSegment sm (int k - 3) OPEN st1 =
          st1\<lparr>peaksAcc := peaksAcc st1 @ [Some (int (p ! (length p div 2)))]\<rparr>"
      and pne: "p \<noteq> []"
      using finishSegment_OPEN [OF se(1,2,3)] se(4) by (simp_all add: p_def)
    have pm: "p ! (length p div 2) < length sm"
      using plateau_middle_in_segment [OF p_def pne] se(3) by simp
    have res: "scanStep sm openTh closeTh k st =
        st1\<lparr>peaksAcc := peaksAcc st1 @ [Some (int (p ! (length p div 2)))],
            state := CLOSED, segStart := int k - 2, underRun := 0\<rparr>"
      using scanStep_OPEN_fire [OF of, of openTh] fin by (simp add: st1_def)
    show ?thesis
      unfolding res using b pk vl pm
      by (simp add: scanInv_def st1_def minRun_def indexBelow_Some)
  next
    case oc
    have k0: "k \<noteq> 0" using first(2) oc by (cases "k = 0") auto
    show ?thesis
      unfolding scanStep_OPEN_count [OF oc] using oc op pos [OF k0] s0 pk vl
      by (simp add: scanInv_def minRun_def)
  next
    case or
    have "segStart st < int (Suc k)"
    proof (cases "k = 0")
      case True
      then show ?thesis using zero by simp
    next
      case False
      then show ?thesis using pos by simp
    qed
    then show ?thesis
      unfolding scanStep_OPEN_reset [OF or] using or op s0 pk vl
      by (simp add: scanInv_def minRun_def)
  qed
  then show "scanInv sm openTh closeTh (Suc k) (scanStep sm openTh closeTh k st)"
    and "state (scanStep sm openTh closeTh k st) \<noteq> state st \<Longrightarrow>
         3 \<le> k \<and> 0 \<le> segStart st \<and> segStart st \<le> int k - 3"
    by simp_all
qed

subsection \<open>The invariant along the scan\<close>

lemma scanUpTo_Suc:
  "scanUpTo sm openTh closeTh (Suc k) = scanStep sm openTh closeTh k (scanUpTo sm openTh closeTh k)"
  by (simp add: scanUpTo_def)

lemma scanInv_init: "scanInv sm openTh closeTh 0 (scanInit sm openTh closeTh)"
  by (simp add: scanInv_def scanInit_def Let_def minRun_def)

lemma scanInv_upTo:
  assumes "closeTh < openTh" "k \<le> length sm"
  shows "scanInv sm openTh closeTh k (scanUpTo sm openTh closeTh k)"
  using assms(2)
proof (induction k)
  case 0
  show ?case using scanInv_init by (simp add: scanUpTo_def)
next
  case (Suc k)
  then have "k < length sm" and "scanInv sm openTh closeTh k (scanUpTo sm openTh closeTh k)"
    by simp_all
  then show ?case
    unfolding scanUpTo_Suc by (intro scanInv_step(1) [OF assms(1)])
qed


lemma final_segment_bounds:
  assumes "closeTh < openTh" "sm \<noteq> []"
  shows "0 \<le> segStart (scanUpTo sm openTh closeTh (length sm)) \<and>
         segStart (scanUpTo sm openTh closeTh (length sm)) \<le> int (length sm) - 1"
proof -
  have inv: "scanInv sm openTh closeTh (length sm) (scanUpTo sm openTh closeTh (length sm))"
    using assms(1) by (intro scanInv_upTo) simp_all
  have "length sm \<noteq> 0" using assms(2) by simp
  then have "segStart (scanUpTo sm openTh closeTh (length sm)) < int (length sm)"
    using inv unfolding scanInv_def by (simp split: if_splits)
  moreover have "0 \<le> segStart (scanUpTo sm openTh closeTh (length sm))"
    using inv by (simp add: scanInv_def)
  ultimately show ?thesis by simp
qed





lemma thresholds_ordered: "CLOSE_TH_FIXED < OPEN_TH_FIXED"
  by (simp add: CLOSE_TH_FIXED_def OPEN_TH_FIXED_def)

lemma labelBlinkExtrema_fields:
  assumes "smoothSeries xs 5 (35 / 100) \<noteq> []"
  shows "peaks (labelBlinkExtrema xs openTh closeTh) =
           fst (ensurePairing (peaksAcc (scanAll (smoothSeries xs 5 (35 / 100)) openTh closeTh))
                              (valleysAcc (scanAll (smoothSeries xs 5 (35 / 100)) openTh closeTh)))"
    and "valleys (labelBlinkExtrema xs openTh closeTh) =
           snd (ensurePairing (peaksAcc (scanAll (smoothSeries xs 5 (35 / 100)) openTh closeTh))
                              (valleysAcc (scanAll (smoothSeries xs 5 (35 / 100)) openTh closeTh)))"
    and "smooth (labelBlinkExtrema xs openTh closeTh) = smoothSeries xs 5 (35 / 100)"
  using assms by (simp_all add: labelBlinkExtrema_def Let_def split_beta)




subsection \<open>The scan against the reference procedure\<close>

lemma agrees_init: "agrees (scanInit sm openTh closeTh) (init_ref sm openTh closeTh)"
  by (simp add: agrees_def scanInit_def init_ref_def Let_def)

lemma agrees_finish:
  assumes ag: "agrees st r" and se: "refStart r \<le> e" "e < length sm"
  shows "agrees (finishSegment sm (int e) (state st) st) (finalize_ref sm e r)"
proof (cases "state st")
  case CLOSED
  have s: "segStart st = int (refStart r)" using ag by (simp add: agrees_def)
  show ?thesis
    unfolding CLOSED finishSegment_CLOSED(1) [OF s se]
    using ag CLOSED by (simp add: agrees_def finalize_ref_def plateauMiddle_def Let_def)
next
  case OPEN
  have s: "segStart st = int (refStart r)" using ag by (simp add: agrees_def)
  show ?thesis
    unfolding OPEN finishSegment_OPEN(1) [OF s se]
    using ag OPEN by (simp add: agrees_def finalize_ref_def plateauMiddle_def Let_def)
qed

lemma finishSegment_keeps:
  "state (finishSegment sm e prev st) = state st"
  "segStart (finishSegment sm e prev st) = segStart st"
  "overRun (finishSegment sm e prev st) = overRun st"
  "underRun (finishSegment sm e prev st) = underRun st"
  by (simp_all add: finishSegment_def Let_def split: State.splits)

lemma agrees_step:
  assumes th: "closeTh < openTh" and k: "k < length sm"
    and inv: "scanInv sm openTh closeTh k st" and ag: "agrees st r"
  shows "agrees (scanStep sm openTh closeTh k st) (step_ref sm openTh closeTh k r)"
proof -
  have cl: "state st = CLOSED \<Longrightarrow> underRun st = 0 \<and> overRun st < 3"
    and op: "state st = OPEN \<Longrightarrow> overRun st = 0 \<and> underRun st < 3"
    using inv by (simp_all add: scanInv_def minRun_def)
  have rs: "refState r = state st" and rr: "refRun r = overRun st + underRun st"
    and rstart: "segStart st = int (refStart r)"
    using ag by (simp_all add: agrees_def)
  consider
      (cf) "state st = CLOSED" "sm ! k \<ge> openTh" "overRun st = 2"
    | (cc) "state st = CLOSED" "sm ! k \<ge> openTh" "overRun st < 2"
    | (cr) "state st = CLOSED" "\<not> sm ! k \<ge> openTh"
    | (of) "state st = OPEN" "sm ! k \<le> closeTh" "underRun st = 2"
    | (oc) "state st = OPEN" "sm ! k \<le> closeTh" "underRun st < 2"
    | (or) "state st = OPEN" "\<not> sm ! k \<le> closeTh"
    using cl op by (cases "state st") (auto simp: less_Suc_eq numeral_3_eq_3 numeral_2_eq_2)
  then show ?thesis
  proof cases
    case cf
    have b: "3 \<le> k \<and> 0 \<le> segStart st \<and> segStart st \<le> int k - 3"
      using scanInv_fire_bounds [OF th inv] cf cl by simp
    define st1 where "st1 = st\<lparr>overRun := 3, underRun := 0\<rparr>"
    have se1: "refStart r \<le> k - 3" using b rstart by linarith
    have se2: "k - 3 < length sm" using k by linarith
    have se3: "int (k - 3) = int k - 3" using b by linarith
    have st1: "state st1 = CLOSED" "agrees st1 (r\<lparr>refRun := 3\<rparr>)"
      using ag cf by (simp_all add: st1_def agrees_def)
    have fin: "agrees (finishSegment sm (int k - 3) CLOSED st1) (finalize_ref sm (k - 3) (r\<lparr>refRun := 3\<rparr>))"
      using agrees_finish [OF st1(2), of "k - 3" sm] se1 se2 st1(1) se3 by simp
    have fr: "finalize_ref sm (k - 3) (r\<lparr>refRun := 3\<rparr>) = (finalize_ref sm (k - 3) r)\<lparr>refRun := 3\<rparr>"
      by (simp add: finalize_ref_def split: State.splits)
    have kk: "int (k - 3 + 1) = int k - 2" using b by linarith
    have ref: "step_ref sm openTh closeTh k r =
        (finalize_ref sm (k - 3) r)\<lparr>refState := OPEN, refStart := k - 3 + 1, refRun := 0\<rparr>"
      using cf cl rs rr by (simp add: step_ref_def Let_def minRun_def)
    have u: "underRun (finishSegment sm (int k - 3) CLOSED st1) = 0"
      by (simp add: finishSegment_keeps st1_def)
    show ?thesis
      unfolding scanStep_CLOSED_fire [OF cf] ref st1_def [symmetric]
      using fin kk u unfolding fr by (simp add: agrees_def)
  next
    case cc
    show ?thesis
      unfolding scanStep_CLOSED_count [OF cc]
      using cc cl rs rr ag by (simp add: step_ref_def Let_def minRun_def agrees_def)
  next
    case cr
    show ?thesis
      unfolding scanStep_CLOSED_reset [OF cr]
      using cr cl rs rr ag by (simp add: step_ref_def Let_def minRun_def agrees_def)
  next
    case of
    have b: "3 \<le> k \<and> 0 \<le> segStart st \<and> segStart st \<le> int k - 3"
      using scanInv_fire_bounds [OF th inv] of op by simp
    define st1 where "st1 = st\<lparr>underRun := 3, overRun := 0\<rparr>"
    have se1: "refStart r \<le> k - 3" using b rstart by linarith
    have se2: "k - 3 < length sm" using k by linarith
    have se3: "int (k - 3) = int k - 3" using b by linarith
    have st1: "state st1 = OPEN" "agrees st1 (r\<lparr>refRun := 3\<rparr>)"
      using ag of by (simp_all add: st1_def agrees_def)
    have fin: "agrees (finishSegment sm (int k - 3) OPEN st1) (finalize_ref sm (k - 3) (r\<lparr>refRun := 3\<rparr>))"
      using agrees_finish [OF st1(2), of "k - 3" sm] se1 se2 st1(1) se3 by simp
    have fr: "finalize_ref sm (k - 3) (r\<lparr>refRun := 3\<rparr>) = (finalize_ref sm (k - 3) r)\<lparr>refRun := 3\<rparr>"
      by (simp add: finalize_ref_def split: State.splits)
    have kk: "int (k - 3 + 1) = int k - 2" using b by linarith
    have ref: "step_ref sm openTh closeTh k r =
        (finalize_ref sm (k - 3) r)\<lparr>refState := CLOSED, refStart := k - 3 + 1, refRun := 0\<rparr>"
      using of op rs rr by (simp add: step_ref_def Let_def minRun_def)
    have u: "overRun (finishSegment sm (int k - 3) OPEN st1) = 0"
      by (simp add: finishSegment_keeps st1_def)
    show ?thesis
      unfolding scanStep_OPEN_fire [OF of] ref st1_def [symmetric]
      using fin kk u unfolding fr by (simp add: agrees_def)
  next
    case oc
    show ?thesis
      unfolding scanStep_OPEN_count [OF oc]
      using oc op rs rr ag by (simp add: step_ref_def Let_def minRun_def agrees_def)
  next
    case or
    show ?thesis
      unfolding scanStep_OPEN_reset [OF or]
      using or op rs rr ag by (simp add: step_ref_def Let_def minRun_def agrees_def)
  qed
qed

lemma agrees_upTo:
  assumes "closeTh < openTh" "k \<le> length sm"
  shows "agrees (scanUpTo sm openTh closeTh k)
           (fold (step_ref sm openTh closeTh) [0..<k] (init_ref sm openTh closeTh))"
  using assms(2)
proof (induction k)
  case 0
  show ?case using agrees_init by (simp add: scanUpTo_def)
next
  case (Suc k)
  then have k: "k < length sm" and
    IH: "agrees (scanUpTo sm openTh closeTh k)
           (fold (step_ref sm openTh closeTh) [0..<k] (init_ref sm openTh closeTh))"
    by simp_all
  have inv: "scanInv sm openTh closeTh k (scanUpTo sm openTh closeTh k)"
    using assms(1) k by (intro scanInv_upTo) simp_all
  show ?case
    using agrees_step [OF assms(1) k inv IH] by (simp add: scanUpTo_Suc)
qed

lemma agrees_all:
  assumes "closeTh < openTh" "sm \<noteq> []"
  shows "agrees (scanAll sm openTh closeTh) (label_ref sm openTh closeTh)"
proof -
  define st where "st = scanUpTo sm openTh closeTh (length sm)"
  define r where "r = fold (step_ref sm openTh closeTh) [0..<length sm] (init_ref sm openTh closeTh)"
  have ag: "agrees st r" unfolding st_def r_def using assms(1) by (intro agrees_upTo) simp_all
  have b: "0 \<le> segStart st \<and> segStart st \<le> int (length sm) - 1"
    unfolding st_def by (rule final_segment_bounds [OF assms])
  have "segStart st = int (refStart r)" using ag by (simp add: agrees_def)
  then have se1: "refStart r \<le> length sm - 1" using b by linarith
  have se2: "length sm - 1 < length sm" using assms(2) by simp
  have se3: "int (length sm - 1) = int (length sm) - 1" using assms(2)
    by (simp add: of_nat_diff Suc_leI)
  have c: "scanAll sm openTh closeTh = finishSegment sm (int (length sm - 1)) (state st) st"
    by (simp only: scanAll_def Let_def st_def se3)
  have d: "label_ref sm openTh closeTh = finalize_ref sm (length sm - 1) r"
    by (simp only: label_ref_def r_def)
  show ?thesis
    unfolding c d by (rule agrees_finish [OF ag se1 se2])
qed

text \<open>
  Claim C2. For every non-empty input and the thresholds 0.8 and 0.2, the peak and valley
  lists that the scan of \<open>labelBlinkExtrema\<close> builds (the loop and the closing
  \<open>finishSegment\<close>) are those of the reference procedure: initial state OPEN iff
  \<open>smooth[0] \<ge> mid\<close>; a run of \<open>minRun = 3\<close> consecutive samples beyond the threshold
  of the current state, completed at index \<open>i\<close>, finalizes the segment ending at
  \<open>i - minRun\<close> and starts the next one at \<open>i - minRun + 1\<close>; a finalized segment
  contributes the middle index of the plateau of its minimum (CLOSED) or maximum (OPEN);
  the remaining segment is finalized at the end. The function returns these lists after
  its pairing step.
\<close>

theorem labelBlinkExtrema_reference:
  assumes "xs \<noteq> []"
  shows "(let sm = smoothSeries xs 5 (35 / 100);
              st = scanAll sm OPEN_TH_FIXED CLOSE_TH_FIXED;
              r = label_ref sm OPEN_TH_FIXED CLOSE_TH_FIXED;
              ps = map (\<lambda>i. Some (int i)) (refPeaks r);
              vs = map (\<lambda>i. Some (int i)) (refValleys r)
          in peaksAcc st = ps \<and> valleysAcc st = vs \<and>
             labelBlinkExtrema xs OPEN_TH_FIXED CLOSE_TH_FIXED =
               \<lparr>smooth = sm, peaks = fst (ensurePairing ps vs), valleys = snd (ensurePairing ps vs)\<rparr>)"
proof -
  define sm where "sm = smoothSeries xs 5 (35 / 100)"
  have "length sm = length xs" unfolding sm_def by (simp add: smoothSeries_eq_ref smoothSeries_ref_def Let_def)
  then have ne: "sm \<noteq> []" using assms by auto
  have ag: "agrees (scanAll sm OPEN_TH_FIXED CLOSE_TH_FIXED) (label_ref sm OPEN_TH_FIXED CLOSE_TH_FIXED)"
    by (rule agrees_all [OF thresholds_ordered ne])
  have l: "labelBlinkExtrema xs OPEN_TH_FIXED CLOSE_TH_FIXED =
        \<lparr>smooth = sm,
         peaks = fst (ensurePairing (peaksAcc (scanAll sm OPEN_TH_FIXED CLOSE_TH_FIXED))
                                    (valleysAcc (scanAll sm OPEN_TH_FIXED CLOSE_TH_FIXED))),
         valleys = snd (ensurePairing (peaksAcc (scanAll sm OPEN_TH_FIXED CLOSE_TH_FIXED))
                                      (valleysAcc (scanAll sm OPEN_TH_FIXED CLOSE_TH_FIXED)))\<rparr>"
    using ne unfolding sm_def by (simp add: labelBlinkExtrema_def Let_def split_beta)
  show ?thesis
    unfolding Let_def sm_def [symmetric] l using ag by (simp add: agrees_def)
qed

theorem labelBlinkExtrema_reference_witness:
  "[0, 0, 1, 1, 1, 1] \<noteq> ([]::real list) \<and>
   (let sm = smoothSeries [0, 0, 1, 1, 1, 1] 5 (35 / 100);
        st = scanAll sm OPEN_TH_FIXED CLOSE_TH_FIXED;
        r = label_ref sm OPEN_TH_FIXED CLOSE_TH_FIXED
    in refPeaks r = [5] \<and> refValleys r = [0] \<and>
       peaksAcc st = [Some 5] \<and> valleysAcc st = [Some 0] \<and>
       peaks (labelBlinkExtrema [0, 0, 1, 1, 1, 1] OPEN_TH_FIXED CLOSE_TH_FIXED) =
         fst (ensurePairing [Some 5] [Some 0]))"
proof -
  define sm :: "real list" where
    "sm = [429 / 1600, 1 / 2, 1171 / 1600, 26423 / 32000, 567499 / 640000, 11857487 / 12800000]"
  have ev_sm: "smoothSeries [0, 0, 1, 1, 1, 1] 5 (35 / 100) = sm"
    unfolding sm_def by code_simp
  have r: "refPeaks (label_ref sm OPEN_TH_FIXED CLOSE_TH_FIXED) = [5]"
    "refValleys (label_ref sm OPEN_TH_FIXED CLOSE_TH_FIXED) = [0]"
    unfolding sm_def by code_simp+
  have ne: "[0, 0, 1, 1, 1, 1] \<noteq> ([]::real list)" by simp
  show ?thesis
    using labelBlinkExtrema_reference [OF ne, unfolded Let_def ev_sm r] ne
    unfolding Let_def ev_sm r by simp
qed

subsection \<open>The pairing step\<close>

text \<open>
  Claim C1 fails on the code. The second test of the pairing step pops the last valley when
  it lies before the last peak, where the comment above it (\<^verbatim>\<open>Ensure V-P-V pairing\<close>) and
  the specification want a valley after the last peak gone. Three inputs, all of samples
  in [0,1]: eyes closed then open (the scan finds valley 0, peak 5; the valley is popped
  and a lone peak is returned); closed, open, closed (valley 0, peak 5, valley 15; the
  trailing valley stays); closed, open, closed, open (valley 0, peak 5, valley 12, peak 20;
  valley 12 is popped and two peaks follow each other).
\<close>

theorem labelBlinkExtrema_pairing_defect:
  "(let closed_open = labelBlinkExtrema [0, 0, 1, 1, 1, 1] OPEN_TH_FIXED CLOSE_TH_FIXED;
        one_blink = labelBlinkExtrema [0, 0, 1, 1, 1, 1, 1, 1, 1, 0, 0, 0, 0, 0, 0, 0]
                      OPEN_TH_FIXED CLOSE_TH_FIXED;
        two_opens = labelBlinkExtrema
                      [0, 0, 1, 1, 1, 1, 1, 1, 1, 0, 0, 0, 0, 0, 0, 0, 1, 1, 1, 1, 1]
                      OPEN_TH_FIXED CLOSE_TH_FIXED
    in peaks closed_open = [Some 5] \<and> valleys closed_open = [] \<and>
       peaks one_blink = [Some 5] \<and> valleys one_blink = [Some 0, Some 15] \<and>
       peaks two_opens = [Some 5, Some 20] \<and> valleys two_opens = [Some 0] \<and>
       mergedLabels (peaks closed_open) (valleys closed_open) = [OPEN] \<and>
       mergedLabels (peaks one_blink) (valleys one_blink) = [CLOSED, OPEN, CLOSED] \<and>
       mergedLabels (peaks two_opens) (valleys two_opens) = [CLOSED, OPEN, OPEN] \<and>
       \<not> valleyThenPeak (mergedLabels (peaks closed_open) (valleys closed_open)) \<and>
       \<not> valleyThenPeak (mergedLabels (peaks one_blink) (valleys one_blink)) \<and>
       \<not> valleyThenPeak (mergedLabels (peaks two_opens) (valleys two_opens)))"
proof -
  define xa :: "real list" where "xa = [0, 0, 1, 1, 1, 1]"
  define sa :: "real list" where
    "sa = [429 / 1600, 1 / 2, 1171 / 1600, 26423 / 32000, 567499 / 640000, 11857487 / 12800000]"
  have ea: "smoothSeries xa 5 (35 / 100) = sa"
    unfolding xa_def sa_def by code_simp
  have ra: "peaksAcc (scanAll sa OPEN_TH_FIXED CLOSE_TH_FIXED) = [Some 5]"
    "valleysAcc (scanAll sa OPEN_TH_FIXED CLOSE_TH_FIXED) = [Some 0]"
    unfolding sa_def by code_simp+
  have pa: "ensurePairing [Some 5] [Some 0] = ([Some 5], [])"
    by code_simp
  have na: "smoothSeries xa 5 (35 / 100) \<noteq> []" unfolding ea by (simp add: sa_def)
  have a: "peaks (labelBlinkExtrema xa OPEN_TH_FIXED CLOSE_TH_FIXED) = [Some 5]"
    "valleys (labelBlinkExtrema xa OPEN_TH_FIXED CLOSE_TH_FIXED) = []"
    unfolding labelBlinkExtrema_fields [OF na] ea ra pa by simp_all

  define xb :: "real list" where "xb = [0, 0, 1, 1, 1, 1, 1, 1, 1, 0, 0, 0, 0, 0, 0, 0]"
  define mb :: "real list" where "mb = [0, 1 / 2, 1, 1, 1, 1, 1, 1, 1, 0, 0, 0, 0, 0, 0, 0]"
  define sb :: "real list" where "sb =
    [263955500627 / 1024000000000, 24784269279 / 51200000000,
     1810851483 / 2560000000, 100865191 / 128000000, 5303697 / 6400000,
     10715047 / 12800000, 208595331 / 256000000, 3879115303 / 5120000000,
     67049298939 / 102400000000, 638680886207 / 2048000000000,
     8302851520691 / 40960000000000, 107937069768983 / 819200000000000,
     1403181906996779 / 16384000000000000,
     18241364790958127 / 327680000000000000,
     237137742282455651 / 6553600000000000000,
     3082790649671923463 / 131072000000000000000]"
  have medb: "map (medianAt xb 5) [0..<length xb] = mb"
    unfolding xb_def mb_def by code_simp
  have lb: "length xb \<noteq> 0" "length mb = 16" by (simp_all add: xb_def mb_def)
  have eb: "smoothSeries xb 5 (35 / 100) = sb"
    unfolding smoothSeries_def Let_def medb using lb(1)
    apply (simp only: lb(2) if_False)
    apply (simp add: mb_def emaForward.simps emaBackward.simps sb_def)
    apply code_simp
    done
  have rb: "peaksAcc (scanAll sb OPEN_TH_FIXED CLOSE_TH_FIXED) = [Some 5]"
    "valleysAcc (scanAll sb OPEN_TH_FIXED CLOSE_TH_FIXED) = [Some 0, Some 15]"
    unfolding sb_def by code_simp+
  have pb: "ensurePairing [Some 5] [Some 0, Some 15] = ([Some 5], [Some 0, Some 15])"
    by code_simp
  have nb: "smoothSeries xb 5 (35 / 100) \<noteq> []" unfolding eb by (simp add: sb_def)
  have b: "peaks (labelBlinkExtrema xb OPEN_TH_FIXED CLOSE_TH_FIXED) = [Some 5]"
    "valleys (labelBlinkExtrema xb OPEN_TH_FIXED CLOSE_TH_FIXED) = [Some 0, Some 15]"
    unfolding labelBlinkExtrema_fields [OF nb] eb rb pb by simp_all

  define xc :: "real list" where
    "xc = [0, 0, 1, 1, 1, 1, 1, 1, 1, 0, 0, 0, 0, 0, 0, 0, 1, 1, 1, 1, 1]"
  define mc :: "real list" where
    "mc = [0, 1 / 2, 1, 1, 1, 1, 1, 1, 1, 0, 0, 0, 0, 0, 0, 0, 1, 1, 1, 1, 1]"
  define sc :: "real list" where "sc =
    [338528457411743179841 / 1310720000000000000000,
     31775050570134090757 / 65536000000000000000,
     2321827274625699289 / 3276800000000000000,
     129410319586592253 / 163840000000000000,
     6812030245122481 / 8192000000000000, 344673664394037 / 409600000000000,
     16825484971849 / 20480000000000, 786427559973 / 1024000000000,
     68680760381 / 102400000000, 688879699807 / 2048000000000,
     9847430400691 / 40960000000000, 155462573768983 / 819200000000000,
     2865505106996779 / 16384000000000000,
     63235924790958127 / 327680000000000000,
     1621585742282455651 / 6553600000000000000,
     45681190649671923463 / 131072000000000000000,
     1809548278445735005019 / 2621440000000000000000,
     41874207619794555065247 / 52428800000000000000000,
     911366299057329215848211 / 1048576000000000000000000,
     19187793887745279806026743 / 20971520000000000000000000,
     396241960540688637478347659 / 419430400000000000000000000]"
  have medc: "map (medianAt xc 5) [0..<length xc] = mc"
    unfolding xc_def mc_def by code_simp
  have lc: "length xc \<noteq> 0" "length mc = 21" by (simp_all add: xc_def mc_def)
  have ec: "smoothSeries xc 5 (35 / 100) = sc"
    unfolding smoothSeries_def Let_def medc using lc(1)
    apply (simp only: lc(2) if_False)
    apply (simp add: mc_def emaForward.simps emaBackward.simps sc_def)
    apply code_simp
    done
  have rc: "peaksAcc (scanAll sc OPEN_TH_FIXED CLOSE_TH_FIXED) = [Some 5, Some 20]"
    "valleysAcc (scanAll sc OPEN_TH_FIXED CLOSE_TH_FIXED) = [Some 0, Some 12]"
    unfolding sc_def by code_simp+
  have pc: "ensurePairing [Some 5, Some 20] [Some 0, Some 12] = ([Some 5, Some 20], [Some 0])"
    by code_simp
  have nc: "smoothSeries xc 5 (35 / 100) \<noteq> []" unfolding ec by (simp add: sc_def)
  have c: "peaks (labelBlinkExtrema xc OPEN_TH_FIXED CLOSE_TH_FIXED) = [Some 5, Some 20]"
    "valleys (labelBlinkExtrema xc OPEN_TH_FIXED CLOSE_TH_FIXED) = [Some 0]"
    unfolding labelBlinkExtrema_fields [OF nc] ec rc pc by simp_all

  have m: "mergedLabels [Some 5] [] = [OPEN]"
    "mergedLabels [Some 5] [Some 0, Some 15] = [CLOSED, OPEN, CLOSED]"
    "mergedLabels [Some 5, Some 20] [Some 0] = [CLOSED, OPEN, OPEN]"
    by code_simp+
  show ?thesis
    unfolding Let_def using a b c unfolding xa_def xb_def xc_def by (simp add: m)
qed

end
